theory Spec2Isabelle
  imports Complex_Main
begin

section \<open>Numbers of the program\<close>

text \<open>
  The balancer of \<^verbatim>\<open>src/load_balancer.cpp\<close> counts load in C++ \<^verbatim>\<open>int\<close>; the
  model uses \<^typ>\<open>int\<close> and covers the executions in which no signed addition
  overflows (an overflow is undefined behaviour in C++). A finite \<^verbatim>\<open>double\<close>
  is modelled by the real number it denotes. A floating-point division by zero does not
  trap: it yields an infinity or a NaN. The model keeps that visible: a
  \<^verbatim>\<open>double\<close> result is a \<^typ>\<open>real option\<close>, and \<open>None\<close> is a non-finite
  value.
\<close>

type_synonym double = "real option"

definition ddiv :: "real \<Rightarrow> real \<Rightarrow> double" where
  "ddiv a b = (if b = 0 then None else Some (a / b))"

text \<open>
  An operation on doubles returns the double nearest to the exact result, and of two
  nearest ones the one whose significand is even (IEEE 754 binary64, round to nearest,
  53 significant bits). \<open>round_double\<close> is that rounding of a real number:
  \<open>pow2 e\<close> is two to the power of the integer \<open>e\<close>, \<open>expo x\<close> is the binary
  exponent of a positive \<open>x\<close> (\<open>pow2 (expo x) \<le> x < pow2 (expo x + 1)\<close>), the unit in
  the last place of \<open>x\<close> is \<open>pow2 (expo x - 52)\<close>, and \<open>x\<close> is rounded to a whole
  multiple of that unit. Every operation is rounded on its own. The exponent range is
  taken as unbounded: the model covers the executions in which no result overflows or
  falls below the normal range.

  The arithmetic of the two Weighted Optimization functions and of the Least Loaded
  policy of the single-file balancer is rounded in this way, operation by operation. An
  \<^verbatim>\<open>int\<close> converts to a \<^verbatim>\<open>double\<close> without rounding. The percentages, the
  variance and the thresholds of the health simulator are computed on the exact reals.
\<close>

definition pow2 :: "int \<Rightarrow> real" where
  "pow2 e = (if 0 \<le> e then 2 ^ nat e else 1 / 2 ^ nat (- e))"

function expo :: "real \<Rightarrow> int" where
  "expo x =
     (if x \<le> 0 then 0
      else if 2 \<le> x then expo (x / 2) + 1
      else if x < 1 then expo (2 * x) - 1
      else 0)"
  by pat_completeness auto
termination
proof (relation "measure (\<lambda>x. if 1 \<le> x then nat \<lfloor>log 2 x\<rfloor> else nat \<lceil>- log 2 x\<rceil>)")
  show "wf (measure (\<lambda>x. if 1 \<le> x then nat \<lfloor>log 2 x\<rfloor> else nat \<lceil>- log 2 x\<rceil>))"
    by simp
next
  fix x :: real
  assume "\<not> x \<le> 0" and x: "2 \<le> x"
  have l: "log 2 (x / 2) = log 2 x - 1" using x by (simp add: log_divide)
  have "1 \<le> log 2 x" using x by (simp add: le_log_iff)
  then have "1 \<le> \<lfloor>log 2 x\<rfloor>" by linarith
  then show "(x / 2, x)
      \<in> measure (\<lambda>x. if 1 \<le> x then nat \<lfloor>log 2 x\<rfloor> else nat \<lceil>- log 2 x\<rceil>)"
    using x l by simp
next
  fix x :: real
  assume pos: "\<not> x \<le> 0" and "\<not> 2 \<le> x" and x: "x < 1"
  have l: "log 2 (2 * x) = 1 + log 2 x" using pos by (simp add: log_mult)
  have neg: "log 2 x < 0" using pos x by simp
  show "(2 * x, x)
      \<in> measure (\<lambda>x. if 1 \<le> x then nat \<lfloor>log 2 x\<rfloor> else nat \<lceil>- log 2 x\<rceil>)"
  proof (cases "1 \<le> 2 * x")
    case True
    then have "0 \<le> log 2 (2 * x)" by simp
    with l neg have "\<lfloor>log 2 (2 * x)\<rfloor> = 0" by linarith
    moreover have "1 \<le> \<lceil>- log 2 x\<rceil>" using neg by linarith
    ultimately show ?thesis using True x by simp
  next
    case False
    then have "log 2 (2 * x) < 0" using pos by simp
    with l have "1 < - log 2 x" by simp
    then have "2 \<le> \<lceil>- log 2 x\<rceil>" by linarith
    moreover have "\<lceil>- log 2 (2 * x)\<rceil> = \<lceil>- log 2 x\<rceil> - 1"
      using l by (simp add: algebra_simps) linarith
    ultimately show ?thesis using False x by simp
  qed
qed

declare expo.simps [simp del]

definition round_half_even :: "real \<Rightarrow> int" where
  "round_half_even x =
     (let f = \<lfloor>x\<rfloor>; d = x - real_of_int f
      in if d < 1 / 2 then f else if 1 / 2 < d then f + 1 else if even f then f else f + 1)"

definition round_double :: "real \<Rightarrow> real" where
  "round_double x =
     (if x = 0 then 0
      else (let ulp = pow2 (expo \<bar>x\<bar> - 52)
            in real_of_int (round_half_even (x / ulp)) * ulp))"

text \<open>\<^verbatim>\<open>static_cast<int>\<close> of a \<^verbatim>\<open>double\<close> drops the fraction (rounds towards zero).\<close>

definition static_cast_int :: "real \<Rightarrow> int" where
  "static_cast_int x = (if 0 \<le> x then \<lfloor>x\<rfloor> else \<lceil>x\<rceil>)"

text \<open>
  In \<^verbatim>\<open>loadAmount / servers.size()\<close> the \<^verbatim>\<open>int\<close> operand is converted to the
  unsigned 64-bit \<^verbatim>\<open>size_t\<close> before the division, and the quotient is converted
  back to a 32-bit \<^verbatim>\<open>int\<close>.
\<close>

definition size_t_of_int :: "int \<Rightarrow> nat" where
  "size_t_of_int x = nat (x mod 2 ^ 64)"

definition int_of_size_t :: "nat \<Rightarrow> int" where
  "int_of_size_t u = (let m = int u mod 2 ^ 32 in if m < 2 ^ 31 then m else m - 2 ^ 32)"


section \<open>Server (include/load\_balancer.h, src/load\_balancer.cpp)\<close>

record Server =
  id_srv :: int
  capacity :: int
  currentLoad :: int
  performanceMultiplier :: real
  online :: bool
  status :: string

definition new_Server :: "int \<Rightarrow> int \<Rightarrow> Server" where
  "new_Server i c =
     \<lparr>id_srv = i, capacity = c, currentLoad = 0, performanceMultiplier = 1,
      online = True, status = ''HEALTHY''\<rparr>"

definition setCurrentLoad :: "int \<Rightarrow> Server \<Rightarrow> Server" where
  "setCurrentLoad load s = s\<lparr>currentLoad := (if load < 0 then 0 else load)\<rparr>"

definition setPerformanceMultiplier :: "real \<Rightarrow> Server \<Rightarrow> Server" where
  "setPerformanceMultiplier multiplier s =
     s\<lparr>performanceMultiplier :=
          (if multiplier < 0 then 0 else if multiplier > 1 then 1 else multiplier)\<rparr>"

definition getAvailableCapacity :: "Server \<Rightarrow> int" where
  "getAvailableCapacity s = (if \<not> online s then 0 else capacity s - currentLoad s)"

definition getEffectiveCapacity :: "Server \<Rightarrow> real" where
  "getEffectiveCapacity s =
     (if \<not> online s then 0
      else round_double (real_of_int (capacity s) * performanceMultiplier s))"

definition getLoadPercentage :: "Server \<Rightarrow> double" where
  "getLoadPercentage s =
     (if capacity s = 0 then Some 0
      else map_option (\<lambda>q. q * 100)
             (ddiv (real_of_int (currentLoad s)) (real_of_int (capacity s))))"


section \<open>LoadBalancer: the registry and its aggregates\<close>

datatype BalancingAlgorithm = ROUND_ROBIN | LEAST_LOADED | WEIGHTED_OPTIMIZATION

text \<open>What the balancer prints about a request it could not serve in full.\<close>

datatype message =
    NoServersAvailable
  | NoOnlineServers
  | NoEffectiveCapacity
  | InsufficientCapacity int
  | ServerNotFound int
  | ServerOffline int
  | ExceedingCapacity int
  | AddedLoad int int

record LoadBalancer =
  servers :: "Server list"
  currentAlgorithm :: BalancingAlgorithm
  nextServerId :: int
  randomLoadAmount :: int

text \<open>
  \<^verbatim>\<open>getServer\<close> is \<^verbatim>\<open>std::find_if\<close> on the id: the first match. The shared
  pointer it returns is modelled by the position of the server in the vector.
\<close>

fun getServer :: "int \<Rightarrow> Server list \<Rightarrow> nat option" where
  "getServer serverId [] = None"
| "getServer serverId (s # ss) =
     (if id_srv s = serverId then Some 0 else map_option Suc (getServer serverId ss))"

fun getTotalLoad :: "Server list \<Rightarrow> int" where
  "getTotalLoad [] = 0"
| "getTotalLoad (s # ss) = currentLoad s + getTotalLoad ss"

fun getTotalCapacity :: "Server list \<Rightarrow> int" where
  "getTotalCapacity [] = 0"
| "getTotalCapacity (s # ss) = (if online s then capacity s else 0) + getTotalCapacity ss"

text \<open>The system load percentage computed in \<^verbatim>\<open>visualizeLoads\<close>.\<close>

definition systemLoadPercentage :: "Server list \<Rightarrow> double" where
  "systemLoadPercentage srvs =
     (let totalLoad = getTotalLoad srvs; totalCapacity = getTotalCapacity srvs
      in if totalCapacity > 0
         then map_option (\<lambda>q. q * 100) (ddiv (real_of_int totalLoad) (real_of_int totalCapacity))
         else Some 0)"

text \<open>
  The first loop of \<^verbatim>\<open>calculateLoadVariance\<close>: the sum of the load percentages
  of the online servers and their number.
\<close>

fun sumLoadPercentage :: "Server list \<Rightarrow> double \<times> nat" where
  "sumLoadPercentage [] = (Some 0, 0)"
| "sumLoadPercentage (s # ss) =
     (let (totalPercentage, onlineCount) = sumLoadPercentage ss
      in if online s
         then (case (getLoadPercentage s, totalPercentage) of
                 (Some p, Some t) \<Rightarrow> (Some (p + t), Suc onlineCount)
               | _ \<Rightarrow> (None, Suc onlineCount))
         else (totalPercentage, onlineCount))"

text \<open>The second loop: the sum of the squared distances to the mean.\<close>

fun sumSquaredDiff :: "real \<Rightarrow> Server list \<Rightarrow> double" where
  "sumSquaredDiff meanPercentage [] = Some 0"
| "sumSquaredDiff meanPercentage (s # ss) =
     (if online s
      then (case (getLoadPercentage s, sumSquaredDiff meanPercentage ss) of
              (Some p, Some v) \<Rightarrow> Some ((p - meanPercentage) * (p - meanPercentage) + v)
            | _ \<Rightarrow> None)
      else sumSquaredDiff meanPercentage ss)"

definition calculateLoadVariance :: "Server list \<Rightarrow> double" where
  "calculateLoadVariance srvs =
     (if srvs = [] then Some 0
      else let (totalPercentage, onlineCount) = sumLoadPercentage srvs
           in if onlineCount = 0 then Some 0
              else (case totalPercentage of
                      None \<Rightarrow> None
                    | Some t \<Rightarrow>
                        (case ddiv t (real onlineCount) of
                           None \<Rightarrow> None
                         | Some meanPercentage \<Rightarrow>
                             (case sumSquaredDiff meanPercentage srvs of
                                None \<Rightarrow> None
                              | Some variance \<Rightarrow> ddiv variance (real onlineCount)))))"


section \<open>LoadBalancer::addLoadToServer\<close>

definition addLoadToServer :: "int \<Rightarrow> int \<Rightarrow> Server list \<Rightarrow> Server list \<times> message list" where
  "addLoadToServer serverId loadAmount srvs =
     (case getServer serverId srvs of
        None \<Rightarrow> (srvs, [ServerNotFound serverId])
      | Some i \<Rightarrow>
          (let server = srvs ! i in
           if \<not> online server then (srvs, [ServerOffline serverId])
           else
             (let availableCapacity = getAvailableCapacity server;
                  exceeding = (loadAmount > availableCapacity);
                  loadAmount' = (if exceeding then availableCapacity else loadAmount)
              in (srvs[i := setCurrentLoad (currentLoad server + loadAmount') server],
                  (if exceeding then [ExceedingCapacity availableCapacity] else [])
                  @ [AddedLoad loadAmount' serverId]))))"


section \<open>Round Robin (LoadBalancer::distributeLoadRoundRobin)\<close>

text \<open>The \<^verbatim>\<open>while\<close> loop that looks for the first online server.\<close>

fun findFirstOnline :: "Server list \<Rightarrow> nat" where
  "findFirstOnline [] = 0"
| "findFirstOnline (s # ss) = (if online s then 0 else Suc (findFirstOnline ss))"

text \<open>
  One pass of the \<^verbatim>\<open>for\<close> loop, at counter \<open>i\<close>; the state is the vector and
  \<^verbatim>\<open>remainingLoad\<close>.
\<close>

definition roundRobinVisit :: "nat \<Rightarrow> int \<Rightarrow> nat \<Rightarrow> Server list \<times> int \<Rightarrow> Server list \<times> int" where
  "roundRobinVisit startIdx baseLoadPerServer i st =
     (let srvs = fst st; remainingLoad = snd st;
          idx = (startIdx + i) mod length srvs
      in if online (srvs ! idx)
         then (let serverLoad =
                     (if remainingLoad > 0 then baseLoadPerServer + 1 else baseLoadPerServer);
                   remainingLoad' = (if remainingLoad > 0 then remainingLoad - 1 else remainingLoad)
               in (srvs[idx := setCurrentLoad (currentLoad (srvs ! idx) + serverLoad) (srvs ! idx)],
                   remainingLoad'))
         else (srvs, remainingLoad))"

definition distributeLoadRoundRobin :: "int \<Rightarrow> Server list \<Rightarrow> Server list \<times> message list" where
  "distributeLoadRoundRobin loadAmount srvs =
     (if srvs = [] then (srvs, [NoServersAvailable])
      else
        (let startIdx = findFirstOnline srvs in
         if startIdx \<ge> length srvs then (srvs, [NoOnlineServers])
         else
           (let baseLoadPerServer = int_of_size_t (size_t_of_int loadAmount div length srvs);
                remainingLoad = int_of_size_t (size_t_of_int loadAmount mod length srvs)
            in (fst (fold (roundRobinVisit startIdx baseLoadPerServer) [0..<length srvs]
                      (srvs, remainingLoad)), []))))"


section \<open>Least Loaded (LoadBalancer::distributeLoadLeastLoaded)\<close>

text \<open>
  The inner \<^verbatim>\<open>for\<close> loop: \<^verbatim>\<open>bestServer\<close> (a position, \<open>None\<close> for the null
  pointer) and \<^verbatim>\<open>bestAvailableCapacity\<close>, which starts at \<open>-1\<close>.
\<close>

fun findBestServer :: "Server list \<Rightarrow> nat \<Rightarrow> nat option \<times> int \<Rightarrow> nat option \<times> int" where
  "findBestServer [] i best = best"
| "findBestServer (server # rest) i best =
     (if \<not> online server then findBestServer rest (Suc i) best
      else if getAvailableCapacity server > snd best
           then findBestServer rest (Suc i) (Some i, getAvailableCapacity server)
           else findBestServer rest (Suc i) best)"

text \<open>
  One iteration of the \<^verbatim>\<open>while\<close> loop: \<open>None\<close> is the \<^verbatim>\<open>break\<close>, otherwise the
  vector and \<^verbatim>\<open>remainingLoad\<close> after the assignment.
\<close>

definition leastLoadedStep :: "Server list \<Rightarrow> int \<Rightarrow> (Server list \<times> int) option" where
  "leastLoadedStep srvs remainingLoad =
     (let best = findBestServer srvs 0 (None, -1);
          bestAvailableCapacity = snd best
      in case fst best of
           None \<Rightarrow> None
         | Some b \<Rightarrow>
             if bestAvailableCapacity \<le> 0 then None
             else (let loadToAdd = min remainingLoad bestAvailableCapacity
                   in Some (srvs[b := setCurrentLoad (currentLoad (srvs ! b) + loadToAdd) (srvs ! b)],
                            remainingLoad - loadToAdd)))"

lemma leastLoadedStep_decreases:
  "leastLoadedStep srvs r = Some st \<Longrightarrow> 0 < r \<Longrightarrow> snd st < r"
  by (auto simp: leastLoadedStep_def Let_def split: option.splits if_splits)

function leastLoadedLoop :: "Server list \<Rightarrow> int \<Rightarrow> Server list \<times> int \<times> message list" where
  "leastLoadedLoop srvs remainingLoad =
     (if remainingLoad > 0
      then (case leastLoadedStep srvs remainingLoad of
              None \<Rightarrow> (srvs, remainingLoad, [InsufficientCapacity remainingLoad])
            | Some next_state \<Rightarrow> leastLoadedLoop (fst next_state) (snd next_state))
      else (srvs, remainingLoad, []))"
  by pat_completeness auto
termination
  by (relation "measure (\<lambda>(srvs, r). nat r)") (auto dest: leastLoadedStep_decreases)

declare leastLoadedLoop.simps [simp del]

definition distributeLoadLeastLoaded :: "int \<Rightarrow> Server list \<Rightarrow> Server list \<times> int \<times> message list" where
  "distributeLoadLeastLoaded loadAmount srvs =
     (if srvs = [] then (srvs, loadAmount, [NoServersAvailable])
      else leastLoadedLoop srvs loadAmount)"

text \<open>
  The second component is the final value of the local \<^verbatim>\<open>remainingLoad\<close>; the
  caller of the C++ function sees it only through the printed warning.
\<close>


section \<open>Weighted Optimization (LoadBalancer::distributeLoadWeightedOptimization)\<close>

text \<open>The first loop: the running sum over the servers in vector order.\<close>

definition totalEffectiveCapacity :: "Server list \<Rightarrow> real" where
  "totalEffectiveCapacity srvs =
     fold (\<lambda>server acc. if online server then round_double (acc + getEffectiveCapacity server)
                        else acc) srvs 0"

text \<open>The loop that fills \<^verbatim>\<open>idealLoads\<close>; \<^verbatim>\<open>distributedLoad\<close> is the sum of the entries.\<close>

definition idealLoadOf :: "real \<Rightarrow> int \<Rightarrow> Server \<Rightarrow> int" where
  "idealLoadOf totalCap loadAmount server =
     (if \<not> online server then 0
      else (let ratio = round_double (getEffectiveCapacity server / totalCap);
                serverIdealLoad = static_cast_int (round_double (ratio * real_of_int loadAmount));
                availableCapacity = getAvailableCapacity server
            in if serverIdealLoad > availableCapacity then availableCapacity else serverIdealLoad))"

text \<open>
  One run of the \<^verbatim>\<open>for\<close> loop inside the \<^verbatim>\<open>while\<close> loop, over the servers and
  their entries of \<^verbatim>\<open>idealLoads\<close>; it stops as soon as \<^verbatim>\<open>remainingLoad\<close> is used up.
\<close>

fun remainderPass :: "Server list \<Rightarrow> int list \<Rightarrow> int \<Rightarrow> bool \<Rightarrow> int list \<times> int \<times> bool" where
  "remainderPass (server # rest) (x # xs) remainingLoad distributed =
     (if remainingLoad > 0
      then (if online server \<and> getAvailableCapacity server - x > 0
            then (let r = remainderPass rest xs (remainingLoad - 1) True
                  in ((x + 1) # fst r, snd r))
            else (let r = remainderPass rest xs remainingLoad distributed
                  in (x # fst r, snd r)))
      else (x # xs, remainingLoad, distributed))"
| "remainderPass srvs xs remainingLoad distributed = (xs, remainingLoad, distributed)"

lemma remainderPass_decreases:
  "remainderPass srvs xs r d = (ys, r', d') \<Longrightarrow>
     r' \<le> r \<and> (d' \<longrightarrow> d \<or> r' < r)"
proof (induction srvs xs r d arbitrary: ys r' d' rule: remainderPass.induct)
  case (1 server rest x xs remainingLoad distributed)
  show ?case
  proof (cases "remainingLoad > 0")
    case False
    with "1.prems" show ?thesis by auto
  next
    case pos: True
    show ?thesis
    proof (cases "online server \<and> getAvailableCapacity server - x > 0")
      case True
      obtain zs q e where r: "remainderPass rest xs (remainingLoad - 1) True = (zs, q, e)"
        by (cases "remainderPass rest xs (remainingLoad - 1) True") auto
      from "1.IH"(1) [OF pos True r] have "q \<le> remainingLoad - 1" by simp
      moreover from "1.prems" pos True r have "r' = q" by (simp add: Let_def)
      ultimately show ?thesis by simp
    next
      case False
      obtain zs q e where r: "remainderPass rest xs remainingLoad distributed = (zs, q, e)"
        by (cases "remainderPass rest xs remainingLoad distributed") auto
      from "1.IH"(2) [OF pos False r]
      have "q \<le> remainingLoad \<and> (e \<longrightarrow> distributed \<or> q < remainingLoad)" .
      moreover from "1.prems" pos False r have "r' = q" "d' = e" by (auto simp: Let_def)
      ultimately show ?thesis by simp
    qed
  qed
qed auto

function remainderLoop :: "Server list \<Rightarrow> int list \<Rightarrow> int \<Rightarrow> int list \<times> int" where
  "remainderLoop srvs idealLoads remainingLoad =
     (if remainingLoad > 0
      then (let r = remainderPass srvs idealLoads remainingLoad False
            in if \<not> snd (snd r) then (fst r, fst (snd r))
               else remainderLoop srvs (fst r) (fst (snd r)))
      else (idealLoads, remainingLoad))"
  by pat_completeness auto
termination
proof (relation "measure (\<lambda>(srvs, xs, r). nat r)")
  show "wf (measure (\<lambda>(srvs, xs, r). nat r))" by simp
next
  fix srvs :: "Server list" and idealLoads :: "int list" and remainingLoad :: int
    and x :: "int list \<times> int \<times> bool"
  assume pos: "0 < remainingLoad"
    and x: "x = remainderPass srvs idealLoads remainingLoad False"
    and d: "\<not> \<not> snd (snd x)"
  obtain ys r' d' where r: "remainderPass srvs idealLoads remainingLoad False = (ys, r', d')"
    by (cases "remainderPass srvs idealLoads remainingLoad False") auto
  from remainderPass_decreases [OF r] x r d have "r' < remainingLoad" by simp
  with pos x r show "((srvs, fst x, fst (snd x)), srvs, idealLoads, remainingLoad)
      \<in> measure (\<lambda>(srvs, xs, r). nat r)" by simp
qed

declare remainderLoop.simps [simp del]

text \<open>The last loop: an entry is applied only when it is positive.\<close>

fun applyLoads :: "Server list \<Rightarrow> int list \<Rightarrow> Server list" where
  "applyLoads (server # rest) (x # xs) =
     (if x > 0 then setCurrentLoad (currentLoad server + x) server else server) # applyLoads rest xs"
| "applyLoads srvs xs = srvs"

definition distributeLoadWeightedOptimization ::
    "int \<Rightarrow> Server list \<Rightarrow> Server list \<times> int \<times> message list" where
  "distributeLoadWeightedOptimization loadAmount srvs =
     (if srvs = [] then (srvs, loadAmount, [NoServersAvailable])
      else
        (let totalCap = totalEffectiveCapacity srvs in
         if totalCap \<le> 0 then (srvs, loadAmount, [NoEffectiveCapacity])
         else
           (let idealLoads = map (idealLoadOf totalCap loadAmount) srvs;
                distributedLoad = sum_list idealLoads;
                r = remainderLoop srvs idealLoads (loadAmount - distributedLoad);
                remainingLoad = snd r
            in (applyLoads srvs (fst r), remainingLoad,
                (if remainingLoad > 0 then [InsufficientCapacity remainingLoad] else [])))))"


section \<open>addSystemLoad, rebalanceLoads, removeServer\<close>

definition addSystemLoad :: "BalancingAlgorithm \<Rightarrow> int \<Rightarrow> Server list \<Rightarrow> Server list \<times> message list" where
  "addSystemLoad algorithm loadAmount srvs =
     (case algorithm of
        ROUND_ROBIN \<Rightarrow> distributeLoadRoundRobin loadAmount srvs
      | LEAST_LOADED \<Rightarrow>
          (let r = distributeLoadLeastLoaded loadAmount srvs in (fst r, snd (snd r)))
      | WEIGHTED_OPTIMIZATION \<Rightarrow>
          (let r = distributeLoadWeightedOptimization loadAmount srvs in (fst r, snd (snd r))))"

definition rebalanceLoads :: "LoadBalancer \<Rightarrow> LoadBalancer \<times> message list" where
  "rebalanceLoads lb =
     (let totalLoad = getTotalLoad (servers lb);
          cleared = map (setCurrentLoad 0) (servers lb);
          r = addSystemLoad (currentAlgorithm lb) totalLoad cleared
      in (lb\<lparr>servers := fst r\<rparr>, snd r))"

definition removeServer :: "int \<Rightarrow> LoadBalancer \<Rightarrow> LoadBalancer \<times> bool \<times> message list" where
  "removeServer serverId lb =
     (case getServer serverId (servers lb) of
        None \<Rightarrow> (lb, False, [ServerNotFound serverId])
      | Some i \<Rightarrow>
          (let loadToRedistribute = currentLoad (servers lb ! i);
               remaining = take i (servers lb) @ drop (Suc i) (servers lb)
           in if remaining \<noteq> [] \<and> loadToRedistribute > 0
              then (let r = addSystemLoad (currentAlgorithm lb) loadToRedistribute remaining
                    in (lb\<lparr>servers := fst r\<rparr>, True, snd r))
              else (lb\<lparr>servers := remaining\<rparr>, True, [])))"

definition addServer :: "int \<Rightarrow> LoadBalancer \<Rightarrow> LoadBalancer" where
  "addServer cap lb =
     lb\<lparr>servers := servers lb @ [new_Server (nextServerId lb) cap],
        nextServerId := nextServerId lb + 1\<rparr>"

text \<open>The constructor: Round Robin, and three servers of the default capacity 100.\<close>

definition new_LoadBalancer :: LoadBalancer where
  "new_LoadBalancer =
     addServer 100 (addServer 100 (addServer 100
       \<lparr>servers = [], currentAlgorithm = ROUND_ROBIN, nextServerId = 1,
        randomLoadAmount = 10\<rparr>))"

text \<open>
  The amount a distribution call reports as undistributed: the number in the
  insufficient-capacity warning, the whole request when the call gives up with one of the
  messages that say nothing could be placed, and nothing when the call prints no message.
\<close>

fun undistributed :: "int \<Rightarrow> message list \<Rightarrow> int" where
  "undistributed loadAmount [] = 0"
| "undistributed loadAmount (InsufficientCapacity n # ms) = n"
| "undistributed loadAmount (NoServersAvailable # ms) = loadAmount"
| "undistributed loadAmount (NoOnlineServers # ms) = loadAmount"
| "undistributed loadAmount (NoEffectiveCapacity # ms) = loadAmount"
| "undistributed loadAmount (m # ms) = undistributed loadAmount ms"

definition perServerDelta :: "Server list \<Rightarrow> Server list \<Rightarrow> int list" where
  "perServerDelta before after = map2 (\<lambda>a b. currentLoad a - currentLoad b) after before"


section \<open>The single-file balancer (src/unnamed/part\_000)\<close>

text \<open>
  The repository also holds a self-contained balancer whose \<^verbatim>\<open>Server\<close> is a plain
  struct with \<^verbatim>\<open>double\<close> capacity and load, no online flag and no performance
  multiplier. Its names carry the suffix \<open>_d\<close> here.
\<close>

record Server_d =
  id_d :: int
  capacity_d :: real
  currentLoad_d :: real

definition utilizationRatio :: "Server_d \<Rightarrow> double" where
  "utilizationRatio s =
     (if capacity_d s > 0 then ddiv (currentLoad_d s) (capacity_d s) else Some 0)"

text \<open>The system utilization of \<^verbatim>\<open>displayStatus\<close>.\<close>

definition systemUtilization :: "Server_d list \<Rightarrow> double" where
  "systemUtilization srvs =
     (let totalCapacity = sum_list (map capacity_d srvs);
          totalLoad = sum_list (map currentLoad_d srvs)
      in if totalCapacity > 0
         then map_option (\<lambda>q. q * 100) (ddiv totalLoad totalCapacity)
         else Some 0)"

text \<open>
  The search loop of its Least Loaded policy. \<^verbatim>\<open>minUtilizationRatio\<close> starts at the
  largest \<^verbatim>\<open>double\<close>, modelled by \<open>None\<close>: every ratio is below it. A comparison
  with a NaN is false. The ratio the loop compares is the quotient as the machine returns
  it, rounded.
\<close>

fun findLeastLoaded :: "Server_d list \<Rightarrow> nat \<Rightarrow> nat \<times> real option \<Rightarrow> nat \<times> real option" where
  "findLeastLoaded [] i least = least"
| "findLeastLoaded (s # ss) i least =
     (case map_option round_double (utilizationRatio s) of
        None \<Rightarrow> findLeastLoaded ss (Suc i) least
      | Some ur \<Rightarrow>
          if (case snd least of None \<Rightarrow> True | Some minUtilizationRatio \<Rightarrow> ur < minUtilizationRatio)
          then findLeastLoaded ss (Suc i) (i, Some ur)
          else findLeastLoaded ss (Suc i) least)"

definition distributeLoadLeastLoaded_d :: "real \<Rightarrow> Server_d list \<Rightarrow> Server_d list" where
  "distributeLoadLeastLoaded_d newLoad srvs =
     (if srvs = [] then srvs
      else (let leastLoadedIdx = fst (findLeastLoaded srvs 0 (0, None))
            in srvs[leastLoadedIdx :=
                 (srvs ! leastLoadedIdx)\<lparr>currentLoad_d :=
                    round_double (currentLoad_d (srvs ! leastLoadedIdx) + newLoad)\<rparr>]))"

text \<open>
  Its Weighted Optimization. The division by \<^verbatim>\<open>totalCapacity\<close> is not guarded in the
  source. With a total of zero the target utilization is an infinity or a NaN, and the
  target load of a server is \<open>+\<infinity>\<close> when its capacity has the sign of the numerator
  and \<open>-\<infinity>\<close> or a NaN otherwise. If some target is \<open>+\<infinity>\<close>, so are its difference
  and the sum of the positive differences, their quotient is a NaN and the load of that
  server becomes a NaN: the model answers \<open>None\<close>. Otherwise no difference compares
  greater than zero and the function falls back on Least Loaded.
\<close>

definition distributeLoadOptimization :: "real \<Rightarrow> Server_d list \<Rightarrow> Server_d list option" where
  "distributeLoadOptimization newLoad srvs =
     (if srvs = [] then Some srvs
      else
        (let totalCapacity = fold (\<lambda>server acc. round_double (acc + capacity_d server)) srvs 0;
             totalCurrentLoad =
               fold (\<lambda>server acc. round_double (acc + currentLoad_d server)) srvs 0;
             numerator = round_double (totalCurrentLoad + newLoad)
         in if totalCapacity = 0
            then (if list_ex (\<lambda>server. 0 < numerator \<and> 0 < capacity_d server \<or>
                                     numerator < 0 \<and> capacity_d server < 0) srvs
                  then None
                  else Some (distributeLoadLeastLoaded_d newLoad srvs))
            else
              (let targetUtilization = round_double (numerator / totalCapacity);
                   targetLoads =
                     map (\<lambda>server. round_double (targetUtilization * capacity_d server)) srvs;
                   loadDifferences =
                     map2 (\<lambda>t server. round_double (t - currentLoad_d server)) targetLoads srvs;
                   totalPositiveDifference =
                     fold (\<lambda>diff acc. if diff > 0 then round_double (acc + diff) else acc)
                       loadDifferences 0
               in if totalPositiveDifference > 0
                  then Some (map2 (\<lambda>diff server. if diff > 0
                                 then server\<lparr>currentLoad_d :=
                                        round_double (currentLoad_d server +
                                          round_double (newLoad *
                                            round_double (diff / totalPositiveDifference)))\<rparr>
                                 else server) loadDifferences srvs)
                  else Some (distributeLoadLeastLoaded_d newLoad srvs))))"

text \<open>A server of the modular balancer read as a server of the single-file one.\<close>

definition as_Server_d :: "Server \<Rightarrow> Server_d" where
  "as_Server_d s =
     \<lparr>id_d = id_srv s, capacity_d = real_of_int (capacity s),
      currentLoad_d = real_of_int (currentLoad s)\<rparr>"


section \<open>ServerHealthSimulator (src/server\_health.cpp)\<close>

datatype ServerState = HEALTHY | DEGRADED | CRITICAL | OFFLINE

text \<open>
  Time points are seconds on the system clock. The field \<^verbatim>\<open>performanceMultiplier\<close>
  of the health record carries the suffix \<open>_h\<close>.
\<close>

record ServerHealth =
  serverId :: int
  state :: ServerState
  healthScore :: real
  failureProbability :: real
  recoveryProbability :: real
  lastStateChange :: real
  performanceMultiplier_h :: real

text \<open>The calls of the two observer callbacks, in the order they are made.\<close>

datatype notification = StateChange int ServerState | PerformanceUpdate int real




text \<open>\<^verbatim>\<open>degradeServerPerformance\<close> on the record it found.\<close>

definition degradeRecord :: "real \<Rightarrow> real \<Rightarrow> ServerHealth \<Rightarrow> ServerHealth \<times> notification list" where
  "degradeRecord now degradationFactor it =
     (let factor = max 0 (min 1 degradationFactor);
          multiplied = it\<lparr>performanceMultiplier_h := performanceMultiplier_h it * factor\<rparr>;
          derived =
            (if performanceMultiplier_h multiplied < 1/10
             then multiplied\<lparr>state := OFFLINE, healthScore := 0, performanceMultiplier_h := 0\<rparr>
             else if performanceMultiplier_h multiplied < 5/10
             then multiplied\<lparr>state := CRITICAL, healthScore := 3/10\<rparr>
             else if performanceMultiplier_h multiplied < 9/10
             then multiplied\<lparr>state := DEGRADED, healthScore := 7/10\<rparr>
             else multiplied);
          stamped = derived\<lparr>lastStateChange := now\<rparr>
      in (stamped, [StateChange (serverId it) (state stamped),
                    PerformanceUpdate (serverId it) (performanceMultiplier_h stamped)]))"

text \<open>The \<^verbatim>\<open>find_if\<close> and the guard in front of it: the first record with the id, if it is not offline.\<close>

fun degradeServerPerformance :: "real \<Rightarrow> int \<Rightarrow> real \<Rightarrow> ServerHealth list
    \<Rightarrow> ServerHealth list \<times> notification list" where
  "degradeServerPerformance now sid degradationFactor [] = ([], [])"
| "degradeServerPerformance now sid degradationFactor (sh # rest) =
     (if serverId sh = sid
      then (if state sh \<noteq> OFFLINE
            then (let r = degradeRecord now degradationFactor sh in (fst r # rest, snd r))
            else (sh # rest, []))
      else (let r = degradeServerPerformance now sid degradationFactor rest
            in (sh # fst r, snd r)))"





section \<open>The greedy choice, in the words of the specification\<close>

text \<open>
  \<open>mostAvailable srvs b\<close>: position \<open>b\<close> holds the online server with the greatest
  available capacity, and among the online servers with that capacity the one with the
  lowest id.
\<close>

definition mostAvailable :: "Server list \<Rightarrow> nat \<Rightarrow> bool" where
  "mostAvailable srvs b \<longleftrightarrow>
     b < length srvs \<and> online (srvs ! b) \<and>
     (\<forall>j < length srvs. online (srvs ! j) \<longrightarrow>
        getAvailableCapacity (srvs ! j) \<le> getAvailableCapacity (srvs ! b)) \<and>
     (\<forall>j < length srvs. j \<noteq> b \<and> online (srvs ! j) \<and>
        getAvailableCapacity (srvs ! j) = getAvailableCapacity (srvs ! b) \<longrightarrow>
        id_srv (srvs ! b) < id_srv (srvs ! j))"


section \<open>The registry as the balancer builds it\<close>

text \<open>
  Ids come from the counter \<^verbatim>\<open>nextServerId\<close> and servers are appended, so the ids
  increase along the vector; loads are written only by \<^verbatim>\<open>setCurrentLoad\<close>, so they
  are never negative.
\<close>

definition registry_ok :: "LoadBalancer \<Rightarrow> bool" where
  "registry_ok lb \<longleftrightarrow>
     sorted_wrt (<) (map id_srv (servers lb)) \<and>
     (\<forall>s \<in> set (servers lb). id_srv s < nextServerId lb \<and> 0 \<le> currentLoad s)"


section \<open>Servers for the worked examples\<close>

text \<open>
  \<open>srv i c l on\<close> is server \<open>i\<close> with capacity \<open>c\<close>, current load \<open>l\<close> and the given
  online flag, at full performance.
\<close>

abbreviation srv :: "int \<Rightarrow> int \<Rightarrow> int \<Rightarrow> bool \<Rightarrow> Server" where
  "srv i c l on \<equiv>
     \<lparr>id_srv = i, capacity = c, currentLoad = l, performanceMultiplier = 1,
      online = on, status = ''HEALTHY''\<rparr>"




section \<open>Rounding to binary64\<close>

text \<open>
  The exponent brackets its argument between two powers of two, so the rounding leaves
  every number with at most 53 significant bits as it is: the integers below
  \<open>2\<^sup>5\<^sup>3\<close> in absolute value, and their quotients by a power of two.
\<close>

lemma pow2_pos: "0 < pow2 e"
  by (simp add: pow2_def)

lemma pow2_powr: "pow2 e = 2 powr real_of_int e"
proof (cases "0 \<le> e")
  case True
  have a: "(2::real) powr real (nat e) = 2 ^ nat e" by (rule powr_realpow) simp
  have b: "real (nat e) = real_of_int e" using True by simp
  from a [unfolded b] True show ?thesis by (simp add: pow2_def)
next
  case False
  have a: "(2::real) powr real (nat (- e)) = 2 ^ nat (- e)" by (rule powr_realpow) simp
  have b: "real (nat (- e)) = - real_of_int e" using False by simp
  have "(2::real) powr real_of_int e = 2 powr (- real (nat (- e)))" unfolding b by simp
  also have "\<dots> = 1 / 2 ^ nat (- e)" unfolding powr_minus a by (simp add: divide_inverse)
  finally show ?thesis using False by (simp add: pow2_def)
qed

lemma pow2_add: "pow2 (a + b) = pow2 a * pow2 b"
  by (simp add: pow2_powr powr_add)

lemma pow2_less: "pow2 a < pow2 b \<longleftrightarrow> a < b"
  by (simp add: pow2_powr)

lemma pow2_Suc: "pow2 (e + 1) = 2 * pow2 e"
  by (simp add: pow2_add) (simp add: pow2_def)

lemma expo_bounds: "0 < x \<Longrightarrow> pow2 (expo x) \<le> x \<and> x < pow2 (expo x + 1)"
proof (induction x rule: expo.induct)
  case (1 x)
  show ?case
  proof (cases "2 \<le> x")
    case True
    with "1.prems" have e: "expo x = expo (x / 2) + 1" by (subst expo.simps) simp
    from "1.IH"(1) True "1.prems"
    have "pow2 (expo (x / 2)) \<le> x / 2 \<and> x / 2 < pow2 (expo (x / 2) + 1)" by simp
    then show ?thesis unfolding e by (simp only: pow2_Suc) simp
  next
    case False
    show ?thesis
    proof (cases "x < 1")
      case True
      with "1.prems" False have e: "expo x = expo (2 * x) - 1" by (subst expo.simps) simp
      from "1.IH"(2) True False "1.prems"
      have "pow2 (expo (2 * x)) \<le> 2 * x \<and> 2 * x < pow2 (expo (2 * x) + 1)" by simp
      moreover have "pow2 (expo (2 * x)) = 2 * pow2 (expo (2 * x) - 1)"
        using pow2_Suc [of "expo (2 * x) - 1"] by simp
      moreover have "pow2 (expo (2 * x) + 1) = 2 * pow2 (expo (2 * x) - 1 + 1)"
        using pow2_Suc [of "expo (2 * x)"] by simp
      ultimately show ?thesis unfolding e by simp
    next
      case nl: False
      with "1.prems" False have e: "expo x = 0" by (subst expo.simps) simp
      show ?thesis unfolding e using False nl by (simp add: pow2_def)
    qed
  qed
qed

lemma round_half_even_of_int: "round_half_even (real_of_int z) = z"
  by (simp add: round_half_even_def)

lemma round_half_even_nonneg: "0 \<le> x \<Longrightarrow> 0 \<le> round_half_even x"
  by (auto simp: round_half_even_def Let_def)

lemma round_double_nonneg: "0 \<le> x \<Longrightarrow> 0 \<le> round_double x"
  using pow2_pos [of "expo \<bar>x\<bar> - 52"]
  by (auto simp: round_double_def Let_def intro!: mult_nonneg_nonneg round_half_even_nonneg)

lemma round_double_dyadic:
  assumes k: "\<bar>k\<bar> < 2 ^ 53"
  shows "round_double (real_of_int k / 2 ^ m) = real_of_int k / 2 ^ m"
proof (cases "k = 0")
  case True
  then show ?thesis by (simp add: round_double_def)
next
  case False
  define x where "x = real_of_int k / 2 ^ m"
  define e where "e = expo \<bar>x\<bar>"
  have xm: "x = real_of_int k * pow2 (- int m)"
    by (simp add: x_def pow2_def)
  have ax: "\<bar>x\<bar> = real_of_int \<bar>k\<bar> * pow2 (- int m)"
    using pow2_pos [of "- int m"] by (simp add: xm abs_mult)
  have pos: "0 < \<bar>x\<bar>" using False by (simp add: x_def)
  from expo_bounds [OF pos] have lo: "pow2 e \<le> \<bar>x\<bar>" by (simp add: e_def)
  have "real_of_int \<bar>k\<bar> < 2 ^ 53" using k by (metis of_int_less_numeral_power_cancel_iff)
  then have "\<bar>x\<bar> < 2 ^ 53 * pow2 (- int m)"
    unfolding ax using pow2_pos [of "- int m"] by simp
  also have "\<dots> = pow2 (53 - int m)"
    using pow2_add [of 53 "- int m"] by (simp add: pow2_def)
  finally have "pow2 e < pow2 (53 - int m)" using lo by simp
  then have e: "e \<le> 52 - int m" by (simp add: pow2_less)
  define j where "j = nat (52 - int m - e)"
  have j: "int j = 52 - int m - e" using e by (simp add: j_def)
  have "pow2 (- int m) = pow2 (int j) * pow2 (e - 52)"
    unfolding pow2_add [symmetric] j by simp
  then have split: "x = real_of_int (k * 2 ^ j) * pow2 (e - 52)"
    by (simp add: xm pow2_def)
  then have "x / pow2 (e - 52) = real_of_int (k * 2 ^ j)"
    using pow2_pos [of "e - 52"] by simp
  then have "round_half_even (x / pow2 (e - 52)) = k * 2 ^ j"
    by (simp only: round_half_even_of_int)
  then have "round_double x = real_of_int (k * 2 ^ j) * pow2 (e - 52)"
    using pos by (simp add: round_double_def Let_def e_def)
  with split show ?thesis by (simp add: x_def)
qed

lemma round_double_int: "\<bar>k\<bar> < 2 ^ 53 \<Longrightarrow> round_double (real_of_int k) = real_of_int k"
  using round_double_dyadic [of k 0] by simp

text \<open>
  A running sum of whole numbers that are not negative is exact as long as it stays
  below \<open>2\<^sup>5\<^sup>3\<close>.
\<close>

lemma fold_round_sum:
  fixes xs :: "int list" and a :: int
  assumes "0 \<le> a" and "\<forall>x \<in> set xs. 0 \<le> x" and "a + sum_list xs < 2 ^ 53"
  shows "fold (\<lambda>x acc. round_double (acc + real_of_int x)) xs (real_of_int a) =
     real_of_int (a + sum_list xs)"
  using assms
proof (induction xs arbitrary: a)
  case Nil
  show ?case by simp
next
  case (Cons x xs)
  have nn: "0 \<le> sum_list xs" using Cons.prems(2) by (simp add: sum_list_nonneg)
  have "\<bar>a + x\<bar> < 2 ^ 53" using Cons.prems nn by simp
  from round_double_int [OF this]
  have r: "round_double (real_of_int a + real_of_int x) = real_of_int (a + x)" by simp
  have "fold (\<lambda>x acc. round_double (acc + real_of_int x)) (x # xs) (real_of_int a) =
      fold (\<lambda>x acc. round_double (acc + real_of_int x)) xs (real_of_int (a + x))"
    by (simp only: fold_simps r)
  also have "\<dots> = real_of_int (a + x + sum_list xs)"
    using Cons.prems by (intro Cons.IH) auto
  finally show ?case by (simp add: add.assoc)
qed

lemma fold_round_sum_positive:
  fixes xs :: "int list" and a :: int
  assumes "0 \<le> a" and "\<forall>x \<in> set xs. 0 \<le> x" and "a + sum_list xs < 2 ^ 53"
  shows "fold (\<lambda>d acc. if 0 < d then round_double (acc + d) else acc)
       (map real_of_int xs) (real_of_int a) =
     real_of_int (a + sum_list xs)"
  using assms
proof (induction xs arbitrary: a)
  case Nil
  show ?case by simp
next
  case (Cons x xs)
  have nn: "0 \<le> sum_list xs" using Cons.prems(2) by (simp add: sum_list_nonneg)
  have "\<bar>a + x\<bar> < 2 ^ 53" using Cons.prems nn by simp
  from round_double_int [OF this]
  have r: "round_double (real_of_int a + real_of_int x) = real_of_int (a + x)" by simp
  have x: "0 \<le> x" using Cons.prems(2) by simp
  have "(if 0 < real_of_int x then round_double (real_of_int a + real_of_int x)
         else real_of_int a) = real_of_int (a + x)"
    using x r by (cases "x = 0") auto
  then have "fold (\<lambda>d acc. if 0 < d then round_double (acc + d) else acc)
        (map real_of_int (x # xs)) (real_of_int a) =
      fold (\<lambda>d acc. if 0 < d then round_double (acc + d) else acc)
        (map real_of_int xs) (real_of_int (a + x))"
    by (simp only: list.map fold_simps)
  also have "\<dots> = real_of_int (a + x + sum_list xs)"
    using Cons.prems by (intro Cons.IH) auto
  finally show ?case by (simp add: add.assoc)
qed

text \<open>The rules that evaluate a rounding on given numbers.\<close>

lemmas round_double_eval = round_double_def expo.simps pow2_def round_half_even_def Let_def


section \<open>Ratios and percentages never divide by zero\<close>


lemma getLoadPercentage_finite: "getLoadPercentage s \<noteq> None"
  by (simp add: getLoadPercentage_def ddiv_def)

lemma sumLoadPercentage_finite: "fst (sumLoadPercentage srvs) \<noteq> None"
  by (induction srvs)
     (auto simp: Let_def getLoadPercentage_finite split: prod.splits option.splits)

lemma sumSquaredDiff_finite: "sumSquaredDiff m srvs \<noteq> None"
  by (induction srvs) (auto split: option.splits simp: getLoadPercentage_finite)

lemma calculateLoadVariance_finite: "calculateLoadVariance srvs \<noteq> None"
proof -
  obtain t n where s: "sumLoadPercentage srvs = (t, n)"
    by (cases "sumLoadPercentage srvs") auto
  with sumLoadPercentage_finite [of srvs] obtain tv where t: "t = Some tv" by auto
  obtain v where v: "sumSquaredDiff (tv / real n) srvs = Some v"
    using sumSquaredDiff_finite [of "tv / real n" srvs] by auto
  show ?thesis
    by (simp add: calculateLoadVariance_def s t v ddiv_def)
qed

lemma sumLoadPercentage_offline:
  "\<forall>s \<in> set srvs. \<not> online s \<Longrightarrow> sumLoadPercentage srvs = (Some 0, 0)"
  by (induction srvs) auto

lemma getTotalCapacity_offline:
  "\<forall>s \<in> set srvs. \<not> online s \<Longrightarrow> getTotalCapacity srvs = 0"
  by (induction srvs) auto

lemma sumLoadPercentage_zero_capacity:
  "\<forall>s \<in> set srvs. online s \<longrightarrow> capacity s = 0 \<Longrightarrow> fst (sumLoadPercentage srvs) = Some 0"
  by (induction srvs) (auto simp: Let_def getLoadPercentage_def split: prod.splits)

lemma sumSquaredDiff_zero_capacity:
  "\<forall>s \<in> set srvs. online s \<longrightarrow> capacity s = 0 \<Longrightarrow> sumSquaredDiff 0 srvs = Some 0"
  by (induction srvs) (auto simp: Let_def getLoadPercentage_def split: prod.splits)

lemma calculateLoadVariance_zero_capacity:
  "\<forall>s \<in> set srvs. online s \<longrightarrow> capacity s = 0 \<Longrightarrow> calculateLoadVariance srvs = Some 0"
proof -
  assume h: "\<forall>s \<in> set srvs. online s \<longrightarrow> capacity s = 0"
  obtain t n where s: "sumLoadPercentage srvs = (t, n)"
    by (cases "sumLoadPercentage srvs") auto
  with sumLoadPercentage_zero_capacity [OF h] have t: "t = Some 0" by simp
  show ?thesis
    by (simp add: calculateLoadVariance_def s t ddiv_def sumSquaredDiff_zero_capacity [OF h])
qed

text \<open>
  Claim C9. Every ratio and percentage short-circuits to 0 in a degenerate configuration
  instead of dividing by zero: the load percentage of a server of capacity zero and the
  utilization ratio of a server of capacity zero are 0; the load variance is 0 for no
  servers, for no online server and when every online server has capacity zero; the
  system utilization (of either balancer) is 0 for no servers, no online server and a
  total capacity of zero. Moreover none of these computations ever produces a non-finite
  value (\<open>None\<close>), whatever the servers are.
\<close>

theorem ratios_short_circuit:
  "(capacity s = 0 \<longrightarrow> getLoadPercentage s = Some 0) \<and>
   (capacity_d z = 0 \<longrightarrow> utilizationRatio z = Some 0) \<and>
   calculateLoadVariance [] = Some 0 \<and>
   ((\<forall>s \<in> set srvs. \<not> online s) \<longrightarrow> calculateLoadVariance srvs = Some 0) \<and>
   ((\<forall>s \<in> set srvs. online s \<longrightarrow> capacity s = 0) \<longrightarrow> calculateLoadVariance srvs = Some 0) \<and>
   systemLoadPercentage [] = Some 0 \<and>
   ((\<forall>s \<in> set srvs. \<not> online s) \<longrightarrow> systemLoadPercentage srvs = Some 0) \<and>
   (getTotalCapacity srvs = 0 \<longrightarrow> systemLoadPercentage srvs = Some 0) \<and>
   systemUtilization [] = Some 0 \<and>
   (sum_list (map capacity_d zs) = 0 \<longrightarrow> systemUtilization zs = Some 0) \<and>
   getLoadPercentage s \<noteq> None \<and> utilizationRatio z \<noteq> None \<and>
   calculateLoadVariance srvs \<noteq> None \<and> systemLoadPercentage srvs \<noteq> None \<and>
   systemUtilization zs \<noteq> None"
proof -
  have 1: "capacity s = 0 \<longrightarrow> getLoadPercentage s = Some 0"
    by (simp add: getLoadPercentage_def)
  have 2: "capacity_d z = 0 \<longrightarrow> utilizationRatio z = Some 0"
    by (simp add: utilizationRatio_def)
  have 3: "calculateLoadVariance [] = Some 0"
    by (simp add: calculateLoadVariance_def)
  have 4: "(\<forall>s \<in> set srvs. \<not> online s) \<longrightarrow> calculateLoadVariance srvs = Some 0"
    by (auto simp: calculateLoadVariance_def sumLoadPercentage_offline)
  have 5: "(\<forall>s \<in> set srvs. online s \<longrightarrow> capacity s = 0) \<longrightarrow> calculateLoadVariance srvs = Some 0"
    by (simp add: calculateLoadVariance_zero_capacity)
  have 6: "systemLoadPercentage [] = Some 0"
    by (simp add: systemLoadPercentage_def)
  have 7: "(\<forall>s \<in> set srvs. \<not> online s) \<longrightarrow> systemLoadPercentage srvs = Some 0"
    by (simp add: systemLoadPercentage_def getTotalCapacity_offline)
  have 8: "getTotalCapacity srvs = 0 \<longrightarrow> systemLoadPercentage srvs = Some 0"
    by (simp add: systemLoadPercentage_def)
  have 9: "systemUtilization [] = Some 0"
    by (simp add: systemUtilization_def)
  have 10: "sum_list (map capacity_d zs) = 0 \<longrightarrow> systemUtilization zs = Some 0"
    by (simp add: systemUtilization_def)
  have 11: "getLoadPercentage s \<noteq> None" by (rule getLoadPercentage_finite)
  have 12: "utilizationRatio z \<noteq> None" by (simp add: utilizationRatio_def ddiv_def)
  have 13: "calculateLoadVariance srvs \<noteq> None" by (rule calculateLoadVariance_finite)
  have 14: "systemLoadPercentage srvs \<noteq> None"
    by (simp add: systemLoadPercentage_def ddiv_def Let_def)
  have 15: "systemUtilization zs \<noteq> None"
    by (simp add: systemUtilization_def ddiv_def Let_def)
  from 1 2 3 4 5 6 7 8 9 10 11 12 13 14 15 show ?thesis by blast
qed

text \<open>
  The theorem at a server of capacity zero that is offline and still carries five units
  of load, and at a single-file server of capacity zero.
\<close>

theorem ratios_short_circuit_witness:
  "getLoadPercentage
     \<lparr>id_srv = 1, capacity = 0, currentLoad = 5, performanceMultiplier = 1,
      online = False, status = ''OFFLINE''\<rparr> = Some 0 \<and>
   utilizationRatio \<lparr>id_d = 1, capacity_d = 0, currentLoad_d = 5\<rparr> = Some 0 \<and>
   calculateLoadVariance
     [\<lparr>id_srv = 1, capacity = 0, currentLoad = 5, performanceMultiplier = 1,
       online = False, status = ''OFFLINE''\<rparr>] = Some 0 \<and>
   systemLoadPercentage
     [\<lparr>id_srv = 1, capacity = 0, currentLoad = 5, performanceMultiplier = 1,
       online = False, status = ''OFFLINE''\<rparr>] = Some 0 \<and>
   systemUtilization [\<lparr>id_d = 1, capacity_d = 0, currentLoad_d = 5\<rparr>] = Some 0"
  using ratios_short_circuit
    [of "\<lparr>id_srv = 1, capacity = 0, currentLoad = 5, performanceMultiplier = 1,
           online = False, status = ''OFFLINE''\<rparr>"
        "\<lparr>id_d = 1, capacity_d = 0, currentLoad_d = 5\<rparr>"
        "[\<lparr>id_srv = 1, capacity = 0, currentLoad = 5, performanceMultiplier = 1,
            online = False, status = ''OFFLINE''\<rparr>]"
        "[\<lparr>id_d = 1, capacity_d = 0, currentLoad_d = 5\<rparr>]"]
  by simp


section \<open>addLoadToServer\<close>


lemma getServer_None: "getServer sid srvs = None \<longleftrightarrow> (\<forall>s \<in> set srvs. id_srv s \<noteq> sid)"
  by (induction srvs) auto

lemma getServer_Some:
  "getServer sid srvs = Some i \<Longrightarrow>
     i < length srvs \<and> id_srv (srvs ! i) = sid \<and> (\<forall>j < i. id_srv (srvs ! j) \<noteq> sid)"
proof (induction srvs arbitrary: i)
  case Nil
  then show ?case by simp
next
  case (Cons s ss)
  show ?case
  proof (cases "id_srv s = sid")
    case True
    with Cons.prems show ?thesis by simp
  next
    case False
    with Cons.prems obtain k where k: "getServer sid ss = Some k" "i = Suc k" by auto
    from Cons.IH [OF k(1)] False k(2) show ?thesis
      by (auto simp: less_Suc_eq_0_disj)
  qed
qed

text \<open>
  Claim C10, as amended. If the id matches no server, or the first server with that id is
  offline, \<^verbatim>\<open>addLoadToServer\<close> leaves the whole registry unchanged. Otherwise it sets
  the load of that server to \<open>max 0 (currentLoad + min loadAmount availableCapacity)\<close>,
  which is an addition of exactly \<open>min loadAmount availableCapacity\<close> whenever that sum
  is not negative. The capacities stay as they are, and every server whose load was
  between 0 and its capacity before the call still has a load of at most its capacity.
\<close>

theorem addLoadToServer_effect:
  "((\<forall>s \<in> set srvs. id_srv s \<noteq> sid) \<longrightarrow>
      fst (addLoadToServer sid loadAmount srvs) = srvs) \<and>
   (\<forall>i. getServer sid srvs = Some i \<longrightarrow>
      i < length srvs \<and> id_srv (srvs ! i) = sid \<and>
      (\<not> online (srvs ! i) \<longrightarrow> fst (addLoadToServer sid loadAmount srvs) = srvs) \<and>
      (online (srvs ! i) \<longrightarrow>
         fst (addLoadToServer sid loadAmount srvs) =
           srvs[i := (srvs ! i)\<lparr>currentLoad :=
                  max 0 (currentLoad (srvs ! i) + min loadAmount (getAvailableCapacity (srvs ! i)))\<rparr>] \<and>
         (0 \<le> currentLoad (srvs ! i) + min loadAmount (getAvailableCapacity (srvs ! i)) \<longrightarrow>
            currentLoad (fst (addLoadToServer sid loadAmount srvs) ! i) =
              currentLoad (srvs ! i) + min loadAmount (getAvailableCapacity (srvs ! i))))) \<and>
   length (fst (addLoadToServer sid loadAmount srvs)) = length srvs \<and>
   (\<forall>j < length srvs.
      capacity (fst (addLoadToServer sid loadAmount srvs) ! j) = capacity (srvs ! j) \<and>
      (0 \<le> currentLoad (srvs ! j) \<and> currentLoad (srvs ! j) \<le> capacity (srvs ! j) \<longrightarrow>
         currentLoad (fst (addLoadToServer sid loadAmount srvs) ! j) \<le> capacity (srvs ! j)))"
proof (cases "getServer sid srvs")
  case None
  then have "fst (addLoadToServer sid loadAmount srvs) = srvs"
    by (simp add: addLoadToServer_def)
  with None show ?thesis by simp
next
  case (Some i)
  note g = getServer_Some [OF Some]
  from g have not_none: "\<not> (\<forall>s \<in> set srvs. id_srv s \<noteq> sid)"
    using nth_mem by blast
  show ?thesis
  proof (cases "online (srvs ! i)")
    case False
    then have "fst (addLoadToServer sid loadAmount srvs) = srvs"
      by (simp add: addLoadToServer_def Some Let_def)
    with Some g not_none False show ?thesis by simp
  next
    case True
    let ?s = "srvs ! i"
    let ?n = "max 0 (currentLoad ?s + min loadAmount (getAvailableCapacity ?s))"
    have r: "fst (addLoadToServer sid loadAmount srvs) = srvs[i := ?s\<lparr>currentLoad := ?n\<rparr>]"
      by (auto simp: addLoadToServer_def Some Let_def True setCurrentLoad_def min_def max_def)
    have b: "\<forall>j < length srvs.
      capacity (srvs[i := ?s\<lparr>currentLoad := ?n\<rparr>] ! j) = capacity (srvs ! j) \<and>
      (0 \<le> currentLoad (srvs ! j) \<and> currentLoad (srvs ! j) \<le> capacity (srvs ! j) \<longrightarrow>
         currentLoad (srvs[i := ?s\<lparr>currentLoad := ?n\<rparr>] ! j) \<le> capacity (srvs ! j))"
      using True g by (auto simp: nth_list_update getAvailableCapacity_def)
    have c1: "(\<forall>s \<in> set srvs. id_srv s \<noteq> sid) \<longrightarrow>
        fst (addLoadToServer sid loadAmount srvs) = srvs"
      using not_none by blast
    have c2: "\<forall>i. getServer sid srvs = Some i \<longrightarrow>
      i < length srvs \<and> id_srv (srvs ! i) = sid \<and>
      (\<not> online (srvs ! i) \<longrightarrow> fst (addLoadToServer sid loadAmount srvs) = srvs) \<and>
      (online (srvs ! i) \<longrightarrow>
         fst (addLoadToServer sid loadAmount srvs) =
           srvs[i := (srvs ! i)\<lparr>currentLoad :=
                  max 0 (currentLoad (srvs ! i) + min loadAmount (getAvailableCapacity (srvs ! i)))\<rparr>] \<and>
         (0 \<le> currentLoad (srvs ! i) + min loadAmount (getAvailableCapacity (srvs ! i)) \<longrightarrow>
            currentLoad (fst (addLoadToServer sid loadAmount srvs) ! i) =
              currentLoad (srvs ! i) + min loadAmount (getAvailableCapacity (srvs ! i))))"
      using Some g True by (simp add: r)
    have c3: "length (fst (addLoadToServer sid loadAmount srvs)) = length srvs"
      by (simp add: r)
    have c4: "\<forall>j < length srvs.
      capacity (fst (addLoadToServer sid loadAmount srvs) ! j) = capacity (srvs ! j) \<and>
      (0 \<le> currentLoad (srvs ! j) \<and> currentLoad (srvs ! j) \<le> capacity (srvs ! j) \<longrightarrow>
         currentLoad (fst (addLoadToServer sid loadAmount srvs) ! j) \<le> capacity (srvs ! j))"
      unfolding r using b .
    from c1 c2 c3 c4 show ?thesis by (intro conjI)
  qed
qed

text \<open>
  The theorem on a registry of two: ten units for server 1, which has room for five;
  ten units for server 2, which is offline; ten units for an id that is not there.
\<close>

theorem addLoadToServer_effect_witness:
  "getServer 1 [srv 1 100 95 True, srv 2 50 0 False] = Some 0 \<and>
   online ([srv 1 100 95 True, srv 2 50 0 False] ! 0) \<and>
   fst (addLoadToServer 1 10 [srv 1 100 95 True, srv 2 50 0 False]) =
     [srv 1 100 100 True, srv 2 50 0 False] \<and>
   getServer 2 [srv 1 100 95 True, srv 2 50 0 False] = Some 1 \<and>
   fst (addLoadToServer 2 10 [srv 1 100 95 True, srv 2 50 0 False]) =
     [srv 1 100 95 True, srv 2 50 0 False] \<and>
   fst (addLoadToServer 7 10 [srv 1 100 95 True, srv 2 50 0 False]) =
     [srv 1 100 95 True, srv 2 50 0 False]"
  using addLoadToServer_effect [of "[srv 1 100 95 True, srv 2 50 0 False]" 1 10]
    addLoadToServer_effect [of "[srv 1 100 95 True, srv 2 50 0 False]" 2 10]
    addLoadToServer_effect [of "[srv 1 100 95 True, srv 2 50 0 False]" 7 10]
  by (simp add: getAvailableCapacity_def)

text \<open>
  Claim C10 as stated fails for a negative amount: server 1 is online with load 5 and
  capacity 100; asked to add \<open>-10\<close>, the setter clamps the load at 0, so the load changes
  by \<open>-5\<close> and not by \<open>min (-10) 95 = -10\<close>.
\<close>

theorem addLoadToServer_negative_counterexample:
  "getServer 1 [srv 1 100 5 True] = Some 0 \<and>
   online ([srv 1 100 5 True] ! 0) \<and>
   currentLoad (fst (addLoadToServer 1 (-10) [srv 1 100 5 True]) ! 0) = 0 \<and>
   currentLoad (fst (addLoadToServer 1 (-10) [srv 1 100 5 True]) ! 0) \<noteq>
     currentLoad ([srv 1 100 5 True] ! 0)
       + min (-10) (getAvailableCapacity ([srv 1 100 5 True] ! 0))"
  by (simp add: addLoadToServer_def getAvailableCapacity_def setCurrentLoad_def)


section \<open>The update tick of the health simulator\<close>






section \<open>Fault injection: degradeServerPerformance\<close>




lemma degradeServerPerformance_absent:
  "\<forall>x \<in> set shs. serverId x \<noteq> sid \<Longrightarrow> degradeServerPerformance now sid f shs = (shs, [])"
  by (induction shs) (auto simp: Let_def)




section \<open>Sums over the registry\<close>


lemma getTotalLoad_update:
  "i < length srvs \<Longrightarrow>
     getTotalLoad (srvs[i := s]) = getTotalLoad srvs - currentLoad (srvs ! i) + currentLoad s"
proof (induction srvs arbitrary: i)
  case Nil
  then show ?case by simp
next
  case (Cons a srvs)
  then show ?case by (cases i) auto
qed

lemma getTotalLoad_sum: "getTotalLoad srvs = sum_list (map currentLoad srvs)"
  by (induction srvs) auto

lemma getTotalLoad_append: "getTotalLoad (xs @ ys) = getTotalLoad xs + getTotalLoad ys"
  by (induction xs) auto

lemma getTotalLoad_erase:
  assumes "i < length srvs"
  shows "getTotalLoad (take i srvs @ drop (Suc i) srvs) = getTotalLoad srvs - currentLoad (srvs ! i)"
proof -
  have "srvs = take i srvs @ srvs ! i # drop (Suc i) srvs"
    using assms by (simp add: id_take_nth_drop)
  then have "getTotalLoad srvs =
      getTotalLoad (take i srvs) + (currentLoad (srvs ! i) + getTotalLoad (drop (Suc i) srvs))"
    by (metis getTotalLoad.simps(2) getTotalLoad_append)
  then show ?thesis by (simp add: getTotalLoad_append)
qed

lemma perServerDelta_sum:
  "length after = length before \<Longrightarrow>
     sum_list (perServerDelta before after) = getTotalLoad after - getTotalLoad before"
proof (induction after arbitrary: before)
  case Nil
  then show ?case by (simp add: perServerDelta_def)
next
  case (Cons a after)
  then obtain b rest where b: "before = b # rest" by (cases before) auto
  with Cons.prems have "length after = length rest" by simp
  from Cons.IH [OF this] b show ?case by (simp add: perServerDelta_def)
qed

lemma sum_list_real_of_int:
  "sum_list (map (\<lambda>s. real_of_int (f s)) xs) = real_of_int (sum_list (map f xs))"
  by (induction xs) auto

text \<open>Clearing the loads forgets every load that was set before.\<close>

lemma cleared_update:
  "map (setCurrentLoad 0) (srvs[i := setCurrentLoad x (srvs ! i)]) = map (setCurrentLoad 0) srvs"
proof (cases "i < length srvs")
  case True
  have "setCurrentLoad 0 (setCurrentLoad x (srvs ! i)) = setCurrentLoad 0 (srvs ! i)"
    by (simp add: setCurrentLoad_def)
  with True show ?thesis
    by (simp add: map_update list_update_same_conv)
next
  case False
  then have "srvs[i := setCurrentLoad x (srvs ! i)] = srvs"
    by (intro list_update_beyond) simp
  then show ?thesis by (simp only:)
qed


section \<open>Least Loaded is greedy and respects the available capacity\<close>


lemma findBestServer_result:
  "findBestServer srvs i (b0, c0) = (b', c') \<Longrightarrow>
     (\<forall>j < length srvs. online (srvs ! j) \<longrightarrow> getAvailableCapacity (srvs ! j) \<le> c') \<and>
     ((b' = b0 \<and> c' = c0) \<or>
      (\<exists>m < length srvs. b' = Some (i + m) \<and> online (srvs ! m) \<and>
          getAvailableCapacity (srvs ! m) = c' \<and> c0 < c' \<and>
          (\<forall>j < m. online (srvs ! j) \<longrightarrow> getAvailableCapacity (srvs ! j) < c')))"
proof (induction srvs arbitrary: i b0 c0)
  case Nil
  then show ?case by simp
next
  case (Cons s rest)
  show ?case
  proof (cases "online s \<and> getAvailableCapacity s > c0")
    case True
    with Cons.prems
    have r: "findBestServer rest (Suc i) (Some i, getAvailableCapacity s) = (b', c')" by simp
    from Cons.IH [OF r]
    have all: "\<forall>j < length rest. online (rest ! j) \<longrightarrow> getAvailableCapacity (rest ! j) \<le> c'"
      and alt: "(b' = Some i \<and> c' = getAvailableCapacity s) \<or>
        (\<exists>m < length rest. b' = Some (Suc i + m) \<and> online (rest ! m) \<and>
          getAvailableCapacity (rest ! m) = c' \<and> getAvailableCapacity s < c' \<and>
          (\<forall>j < m. online (rest ! j) \<longrightarrow> getAvailableCapacity (rest ! j) < c'))"
      by auto
    from alt show ?thesis
    proof
      assume a: "b' = Some i \<and> c' = getAvailableCapacity s"
      have "\<forall>j < length (s # rest). online ((s # rest) ! j) \<longrightarrow>
          getAvailableCapacity ((s # rest) ! j) \<le> c'"
        using all a by (auto simp: nth_Cons split: nat.splits)
      moreover have "\<exists>m < length (s # rest). b' = Some (i + m) \<and> online ((s # rest) ! m) \<and>
          getAvailableCapacity ((s # rest) ! m) = c' \<and> c0 < c' \<and>
          (\<forall>j < m. online ((s # rest) ! j) \<longrightarrow> getAvailableCapacity ((s # rest) ! j) < c')"
        using a True by (intro exI [of _ 0]) simp
      ultimately show ?thesis by blast
    next
      assume "\<exists>m < length rest. b' = Some (Suc i + m) \<and> online (rest ! m) \<and>
          getAvailableCapacity (rest ! m) = c' \<and> getAvailableCapacity s < c' \<and>
          (\<forall>j < m. online (rest ! j) \<longrightarrow> getAvailableCapacity (rest ! j) < c')"
      then obtain m where m: "m < length rest" "b' = Some (Suc i + m)" "online (rest ! m)"
          "getAvailableCapacity (rest ! m) = c'" "getAvailableCapacity s < c'"
          "\<forall>j < m. online (rest ! j) \<longrightarrow> getAvailableCapacity (rest ! j) < c'"
        by blast
      have "\<forall>j < length (s # rest). online ((s # rest) ! j) \<longrightarrow>
          getAvailableCapacity ((s # rest) ! j) \<le> c'"
        using all m(5) by (auto simp: nth_Cons split: nat.splits)
      moreover have "\<exists>m < length (s # rest). b' = Some (i + m) \<and> online ((s # rest) ! m) \<and>
          getAvailableCapacity ((s # rest) ! m) = c' \<and> c0 < c' \<and>
          (\<forall>j < m. online ((s # rest) ! j) \<longrightarrow> getAvailableCapacity ((s # rest) ! j) < c')"
        using m True by (intro exI [of _ "Suc m"]) (auto simp: nth_Cons split: nat.splits)
      ultimately show ?thesis by blast
    qed
  next
    case False
    with Cons.prems have r: "findBestServer rest (Suc i) (b0, c0) = (b', c')"
      by (auto split: if_splits)
    from Cons.IH [OF r]
    have all: "\<forall>j < length rest. online (rest ! j) \<longrightarrow> getAvailableCapacity (rest ! j) \<le> c'"
      and alt: "(b' = b0 \<and> c' = c0) \<or>
        (\<exists>m < length rest. b' = Some (Suc i + m) \<and> online (rest ! m) \<and>
          getAvailableCapacity (rest ! m) = c' \<and> c0 < c' \<and>
          (\<forall>j < m. online (rest ! j) \<longrightarrow> getAvailableCapacity (rest ! j) < c'))"
      by auto
    have c0c': "c0 \<le> c'" using alt by auto
    have all': "\<forall>j < length (s # rest). online ((s # rest) ! j) \<longrightarrow>
          getAvailableCapacity ((s # rest) ! j) \<le> c'"
      using all False c0c' by (auto simp: nth_Cons split: nat.splits)
    from alt show ?thesis
    proof
      assume "b' = b0 \<and> c' = c0"
      with all' show ?thesis by blast
    next
      assume "\<exists>m < length rest. b' = Some (Suc i + m) \<and> online (rest ! m) \<and>
          getAvailableCapacity (rest ! m) = c' \<and> c0 < c' \<and>
          (\<forall>j < m. online (rest ! j) \<longrightarrow> getAvailableCapacity (rest ! j) < c')"
      then obtain m where m: "m < length rest" "b' = Some (Suc i + m)" "online (rest ! m)"
          "getAvailableCapacity (rest ! m) = c'" "c0 < c'"
          "\<forall>j < m. online (rest ! j) \<longrightarrow> getAvailableCapacity (rest ! j) < c'"
        by blast
      have "\<exists>m < length (s # rest). b' = Some (i + m) \<and> online ((s # rest) ! m) \<and>
          getAvailableCapacity ((s # rest) ! m) = c' \<and> c0 < c' \<and>
          (\<forall>j < m. online ((s # rest) ! j) \<longrightarrow> getAvailableCapacity ((s # rest) ! j) < c')"
        using m False by (intro exI [of _ "Suc m"]) (auto simp: nth_Cons split: nat.splits)
      with all' show ?thesis by blast
    qed
  qed
qed

lemma leastLoadedStep_None:
  assumes "leastLoadedStep srvs r = None"
  shows "\<forall>s \<in> set srvs. online s \<longrightarrow> getAvailableCapacity s \<le> 0"
proof -
  obtain b' c' where f: "findBestServer srvs 0 (None, -1) = (b', c')"
    by (cases "findBestServer srvs 0 (None, -1)") auto
  note fr = findBestServer_result [OF f]
  have "c' \<le> 0"
  proof (cases b')
    case None
    with fr show ?thesis by auto
  next
    case (Some b)
    with assms f show ?thesis
      by (auto simp: leastLoadedStep_def Let_def split: if_splits)
  qed
  with fr have "\<forall>j < length srvs. online (srvs ! j) \<longrightarrow> getAvailableCapacity (srvs ! j) \<le> 0"
    by fastforce
  then show ?thesis by (auto simp: in_set_conv_nth)
qed

lemma leastLoadedStep_Some:
  assumes "leastLoadedStep srvs r = Some (srvs', r')"
  shows "\<exists>b < length srvs. online (srvs ! b) \<and> 0 < getAvailableCapacity (srvs ! b) \<and>
     (\<forall>j < length srvs. online (srvs ! j) \<longrightarrow>
        getAvailableCapacity (srvs ! j) \<le> getAvailableCapacity (srvs ! b)) \<and>
     (\<forall>j < b. online (srvs ! j) \<longrightarrow>
        getAvailableCapacity (srvs ! j) < getAvailableCapacity (srvs ! b)) \<and>
     srvs' = srvs[b := setCurrentLoad
                (currentLoad (srvs ! b) + min r (getAvailableCapacity (srvs ! b))) (srvs ! b)] \<and>
     r' = r - min r (getAvailableCapacity (srvs ! b))"
proof -
  obtain b' c' where f: "findBestServer srvs 0 (None, -1) = (b', c')"
    by (cases "findBestServer srvs 0 (None, -1)") auto
  note fr = findBestServer_result [OF f]
  from assms f obtain b where b: "b' = Some b" "0 < c'"
      "srvs' = srvs[b := setCurrentLoad (currentLoad (srvs ! b) + min r c') (srvs ! b)]"
      "r' = r - min r c'"
    by (auto simp: leastLoadedStep_def Let_def split: option.splits if_splits)
  from fr b(1) obtain m where m: "m < length srvs" "b = m" "online (srvs ! m)"
      "getAvailableCapacity (srvs ! m) = c'"
      "\<forall>j < m. online (srvs ! j) \<longrightarrow> getAvailableCapacity (srvs ! j) < c'"
    by auto
  from fr have all: "\<forall>j < length srvs. online (srvs ! j) \<longrightarrow> getAvailableCapacity (srvs ! j) \<le> c'"
    by simp
  show ?thesis
    using m b all by (intro exI [of _ b]) simp
qed

lemma first_best_lowest_id:
  assumes ids: "sorted_wrt (<) (map id_srv srvs)"
    and b: "b < length srvs"
    and first: "\<forall>j < b. online (srvs ! j) \<longrightarrow>
        getAvailableCapacity (srvs ! j) < getAvailableCapacity (srvs ! b)"
    and j: "j < length srvs" "j \<noteq> b" "online (srvs ! j)"
        "getAvailableCapacity (srvs ! j) = getAvailableCapacity (srvs ! b)"
  shows "id_srv (srvs ! b) < id_srv (srvs ! j)"
proof -
  from first j have "\<not> j < b" by auto
  with j(2) have "b < j" by simp
  with ids j(1) show ?thesis
    by (simp add: sorted_wrt_iff_nth_less)
qed

lemma leastLoadedLoop_final:
  "0 \<le> r \<Longrightarrow> leastLoadedLoop srvs r = (srvs', r', msgs) \<Longrightarrow>
     0 \<le> r' \<and> (r' = 0 \<or> (\<forall>s \<in> set srvs'. online s \<longrightarrow> getAvailableCapacity s \<le> 0)) \<and>
     msgs = (if 0 < r' then [InsufficientCapacity r'] else [])"
proof (induction srvs r rule: leastLoadedLoop.induct)
  case (1 srvs remainingLoad)
  show ?case
  proof (cases "0 < remainingLoad")
    case False
    then have "leastLoadedLoop srvs remainingLoad = (srvs, remainingLoad, [])"
      by (subst leastLoadedLoop.simps) simp
    with "1.prems" False show ?thesis by simp
  next
    case pos: True
    show ?thesis
    proof (cases "leastLoadedStep srvs remainingLoad")
      case None
      with pos have "leastLoadedLoop srvs remainingLoad =
          (srvs, remainingLoad, [InsufficientCapacity remainingLoad])"
        by (subst leastLoadedLoop.simps) simp
      with pos "1.prems" leastLoadedStep_None [OF None] show ?thesis
        by auto
    next
      case (Some st)
      obtain s1 r1 where st: "st = (s1, r1)" by (cases st) auto
      from leastLoadedStep_Some [OF Some [unfolded st]] pos have "0 \<le> r1" by auto
      moreover have "leastLoadedLoop srvs remainingLoad = leastLoadedLoop s1 r1"
        using pos Some st by (subst leastLoadedLoop.simps) simp
      with "1.prems" have "leastLoadedLoop s1 r1 = (srvs', r', msgs)" by simp
      ultimately show ?thesis
        using "1.IH" [OF pos Some] st by simp
    qed
  qed
qed

text \<open>
  Claim C3 fails on the Least Loaded policy of the single-file balancer
  (\<^verbatim>\<open>src/unnamed/part_000\<close>), which the claim cites next to the modular one. Server 1
  has capacity 200 and load 100, server 2 capacity 50 and load 0, and 60 units arrive.
  Server 1 has the greater available capacity, 100 against 50, but the policy looks for
  the lowest utilization ratio, 0 against 0.5, and hands the whole request to server 2 in
  one step: 60 units to a server with 50 available.
\<close>

theorem leastLoaded_single_file_counterexample:
  "distributeLoadLeastLoaded_d 60
      [\<lparr>id_d = 1, capacity_d = 200, currentLoad_d = 100\<rparr>,
       \<lparr>id_d = 2, capacity_d = 50, currentLoad_d = 0\<rparr>] =
     [\<lparr>id_d = 1, capacity_d = 200, currentLoad_d = 100\<rparr>,
      \<lparr>id_d = 2, capacity_d = 50, currentLoad_d = 60\<rparr>] \<and>
   capacity_d \<lparr>id_d = 2, capacity_d = 50, currentLoad_d = 0\<rparr>
     - currentLoad_d \<lparr>id_d = 2, capacity_d = 50, currentLoad_d = 0\<rparr>
     < capacity_d \<lparr>id_d = 1, capacity_d = 200, currentLoad_d = 100\<rparr>
       - currentLoad_d \<lparr>id_d = 1, capacity_d = 200, currentLoad_d = 100\<rparr> \<and>
   capacity_d \<lparr>id_d = 2, capacity_d = 50, currentLoad_d = 0\<rparr>
     - currentLoad_d \<lparr>id_d = 2, capacity_d = 50, currentLoad_d = 0\<rparr> < 60"
  by (simp add: distributeLoadLeastLoaded_d_def utilizationRatio_def ddiv_def round_double_eval)

text \<open>
  Claim C3, as amended: the claim for the Least Loaded policy of the modular balancer,
  \<^verbatim>\<open>LoadBalancer::distributeLoadLeastLoaded\<close> of \<^verbatim>\<open>src/load_balancer.cpp\<close>.
  In a registry whose ids increase along the vector (they are handed out by a
  counter and servers are appended) and whose loads are not negative, every iteration of
  the Least Loaded loop that does not break picks the online server with the greatest
  available capacity, the lowest id among equals, and adds
  \<open>min remainingLoad availableCapacity\<close> to its load, which is never more than its
  available capacity at that moment; the registry it leaves satisfies the same two
  conditions, so the statement holds for every iteration. The loop breaks exactly when no
  online server has positive available capacity, and then reports the remainder. For a
  request that is not negative, the call ends with nothing remaining or with no online
  server that has positive available capacity, and it reports what remains.
\<close>

theorem leastLoaded_greedy:
  assumes ids: "sorted_wrt (<) (map id_srv srvs)"
    and loads: "\<forall>s \<in> set srvs. 0 \<le> currentLoad s"
  shows
   "(0 < r \<and> leastLoadedStep srvs r = None \<longrightarrow>
       (\<forall>s \<in> set srvs. online s \<longrightarrow> getAvailableCapacity s \<le> 0) \<and>
       leastLoadedLoop srvs r = (srvs, r, [InsufficientCapacity r])) \<and>
    (\<forall>srvs' r'. 0 < r \<and> leastLoadedStep srvs r = Some (srvs', r') \<longrightarrow>
       leastLoadedLoop srvs r = leastLoadedLoop srvs' r' \<and>
       sorted_wrt (<) (map id_srv srvs') \<and> (\<forall>s \<in> set srvs'. 0 \<le> currentLoad s) \<and>
       (\<exists>b. mostAvailable srvs b \<and> 0 < getAvailableCapacity (srvs ! b) \<and>
            srvs' = srvs[b := (srvs ! b)\<lparr>currentLoad :=
                      currentLoad (srvs ! b) + min r (getAvailableCapacity (srvs ! b))\<rparr>] \<and>
            r' = r - min r (getAvailableCapacity (srvs ! b)) \<and>
            min r (getAvailableCapacity (srvs ! b)) \<le> getAvailableCapacity (srvs ! b))) \<and>
    (r \<le> 0 \<longrightarrow> leastLoadedLoop srvs r = (srvs, r, [])) \<and>
    (0 \<le> r \<longrightarrow>
       ((fst (snd (distributeLoadLeastLoaded r srvs)) = 0 \<or>
         (\<forall>s \<in> set (fst (distributeLoadLeastLoaded r srvs)).
            online s \<longrightarrow> getAvailableCapacity s \<le> 0)) \<and>
        undistributed r (snd (snd (distributeLoadLeastLoaded r srvs)))
           = fst (snd (distributeLoadLeastLoaded r srvs))))"
proof -
  have A: "0 < r \<and> leastLoadedStep srvs r = None \<longrightarrow>
       (\<forall>s \<in> set srvs. online s \<longrightarrow> getAvailableCapacity s \<le> 0) \<and>
       leastLoadedLoop srvs r = (srvs, r, [InsufficientCapacity r])"
    using leastLoadedStep_None [of srvs r]
    by (subst leastLoadedLoop.simps) simp
  have B: "\<forall>srvs' r'. 0 < r \<and> leastLoadedStep srvs r = Some (srvs', r') \<longrightarrow>
       leastLoadedLoop srvs r = leastLoadedLoop srvs' r' \<and>
       sorted_wrt (<) (map id_srv srvs') \<and> (\<forall>s \<in> set srvs'. 0 \<le> currentLoad s) \<and>
       (\<exists>b. mostAvailable srvs b \<and> 0 < getAvailableCapacity (srvs ! b) \<and>
            srvs' = srvs[b := (srvs ! b)\<lparr>currentLoad :=
                      currentLoad (srvs ! b) + min r (getAvailableCapacity (srvs ! b))\<rparr>] \<and>
            r' = r - min r (getAvailableCapacity (srvs ! b)) \<and>
            min r (getAvailableCapacity (srvs ! b)) \<le> getAvailableCapacity (srvs ! b))"
  proof (intro allI impI, elim conjE)
    fix srvs' r'
    assume pos: "0 < r" and step: "leastLoadedStep srvs r = Some (srvs', r')"
    from leastLoadedStep_Some [OF step] obtain b where b: "b < length srvs" "online (srvs ! b)"
        "0 < getAvailableCapacity (srvs ! b)"
        "\<forall>j < length srvs. online (srvs ! j) \<longrightarrow>
           getAvailableCapacity (srvs ! j) \<le> getAvailableCapacity (srvs ! b)"
        "\<forall>j < b. online (srvs ! j) \<longrightarrow>
           getAvailableCapacity (srvs ! j) < getAvailableCapacity (srvs ! b)"
        "srvs' = srvs[b := setCurrentLoad
                (currentLoad (srvs ! b) + min r (getAvailableCapacity (srvs ! b))) (srvs ! b)]"
        "r' = r - min r (getAvailableCapacity (srvs ! b))"
      by blast
    let ?add = "min r (getAvailableCapacity (srvs ! b))"
    have most: "mostAvailable srvs b"
      unfolding mostAvailable_def
      using b(1,2,4) first_best_lowest_id [OF ids b(1) b(5)] by blast
    have cur: "0 \<le> currentLoad (srvs ! b)" using loads b(1) by simp
    have add: "0 < ?add" using pos b(3) by simp
    have sum_nonneg: "\<not> currentLoad (srvs ! b) + ?add < 0"
      using cur pos b(3) by (simp add: min_def)
    have upd: "setCurrentLoad (currentLoad (srvs ! b) + ?add) (srvs ! b) =
        (srvs ! b)\<lparr>currentLoad := currentLoad (srvs ! b) + ?add\<rparr>"
      unfolding setCurrentLoad_def using sum_nonneg by (simp only: if_False)
    have s': "srvs' = srvs[b := (srvs ! b)\<lparr>currentLoad := currentLoad (srvs ! b) + ?add\<rparr>]"
      using b(6) upd by simp
    have ids': "sorted_wrt (<) (map id_srv srvs')"
    proof -
      have "map id_srv srvs' = map id_srv srvs"
        unfolding s' using b(1) by (simp add: map_update list_update_same_conv)
      with ids show ?thesis by simp
    qed
    have loads': "\<forall>s \<in> set srvs'. 0 \<le> currentLoad s"
    proof
      fix s assume "s \<in> set srvs'"
      then have "s \<in> insert ((srvs ! b)\<lparr>currentLoad := currentLoad (srvs ! b) + ?add\<rparr>) (set srvs)"
        unfolding s' using set_update_subset_insert by fastforce
      with loads cur add show "0 \<le> currentLoad s" by auto
    qed
    have loop: "leastLoadedLoop srvs r = leastLoadedLoop srvs' r'"
      using pos step by (subst leastLoadedLoop.simps) simp
    from loop ids' loads' most b(3) s' b(7)
    show "leastLoadedLoop srvs r = leastLoadedLoop srvs' r' \<and>
       sorted_wrt (<) (map id_srv srvs') \<and> (\<forall>s \<in> set srvs'. 0 \<le> currentLoad s) \<and>
       (\<exists>b. mostAvailable srvs b \<and> 0 < getAvailableCapacity (srvs ! b) \<and>
            srvs' = srvs[b := (srvs ! b)\<lparr>currentLoad :=
                      currentLoad (srvs ! b) + min r (getAvailableCapacity (srvs ! b))\<rparr>] \<and>
            r' = r - min r (getAvailableCapacity (srvs ! b)) \<and>
            min r (getAvailableCapacity (srvs ! b)) \<le> getAvailableCapacity (srvs ! b))"
      by (intro conjI exI [of _ b]) simp_all
  qed
  have C: "r \<le> 0 \<longrightarrow> leastLoadedLoop srvs r = (srvs, r, [])"
    by (subst leastLoadedLoop.simps) simp
  have D: "0 \<le> r \<longrightarrow>
       ((fst (snd (distributeLoadLeastLoaded r srvs)) = 0 \<or>
         (\<forall>s \<in> set (fst (distributeLoadLeastLoaded r srvs)).
            online s \<longrightarrow> getAvailableCapacity s \<le> 0)) \<and>
        undistributed r (snd (snd (distributeLoadLeastLoaded r srvs)))
           = fst (snd (distributeLoadLeastLoaded r srvs)))"
  proof
    assume r: "0 \<le> r"
    show "(fst (snd (distributeLoadLeastLoaded r srvs)) = 0 \<or>
         (\<forall>s \<in> set (fst (distributeLoadLeastLoaded r srvs)).
            online s \<longrightarrow> getAvailableCapacity s \<le> 0)) \<and>
        undistributed r (snd (snd (distributeLoadLeastLoaded r srvs)))
           = fst (snd (distributeLoadLeastLoaded r srvs))"
    proof (cases "srvs = []")
      case True
      then show ?thesis
        by (simp add: distributeLoadLeastLoaded_def)
    next
      case False
      obtain s1 r1 m1 where l: "leastLoadedLoop srvs r = (s1, r1, m1)"
        by (cases "leastLoadedLoop srvs r") auto
      from leastLoadedLoop_final [OF r l] False l show ?thesis
        by (auto simp: distributeLoadLeastLoaded_def)
    qed
  qed
  from A B C D show ?thesis by (intro conjI)
qed

text \<open>
  The theorem on four servers and a request of 70: servers 2 and 3 tie at 60 units of
  available capacity, server 2 (the lower id) gets 60, then server 3 gets the last 10;
  server 4 is offline and never chosen.
\<close>

theorem leastLoaded_greedy_witness:
  "leastLoadedStep [srv 1 100 90 True, srv 2 100 40 True, srv 3 100 40 True, srv 4 200 0 False] 70 =
     Some ([srv 1 100 90 True, srv 2 100 100 True, srv 3 100 40 True, srv 4 200 0 False], 10) \<and>
   mostAvailable [srv 1 100 90 True, srv 2 100 40 True, srv 3 100 40 True, srv 4 200 0 False] 1 \<and>
   leastLoadedLoop [srv 1 100 90 True, srv 2 100 40 True, srv 3 100 40 True, srv 4 200 0 False] 70 =
     leastLoadedLoop [srv 1 100 90 True, srv 2 100 100 True, srv 3 100 40 True, srv 4 200 0 False] 10 \<and>
   distributeLoadLeastLoaded 70
       [srv 1 100 90 True, srv 2 100 40 True, srv 3 100 40 True, srv 4 200 0 False] =
     ([srv 1 100 90 True, srv 2 100 100 True, srv 3 100 50 True, srv 4 200 0 False], 0, [])"
proof -
  have ids: "sorted_wrt (<) (map id_srv
      [srv 1 100 90 True, srv 2 100 40 True, srv 3 100 40 True, srv 4 200 0 False])"
    by simp
  have loads: "\<forall>s \<in> set [srv 1 100 90 True, srv 2 100 40 True, srv 3 100 40 True,
      srv 4 200 0 False]. 0 \<le> currentLoad s"
    by simp
  have step: "leastLoadedStep
      [srv 1 100 90 True, srv 2 100 40 True, srv 3 100 40 True, srv 4 200 0 False] 70 =
     Some ([srv 1 100 90 True, srv 2 100 100 True, srv 3 100 40 True, srv 4 200 0 False], 10)"
    by (simp add: leastLoadedStep_def getAvailableCapacity_def setCurrentLoad_def)
  have most: "mostAvailable
      [srv 1 100 90 True, srv 2 100 40 True, srv 3 100 40 True, srv 4 200 0 False] 1"
    by (simp add: mostAvailable_def getAvailableCapacity_def nth_Cons' All_less_Suc
        eval_nat_numeral)
  have final: "distributeLoadLeastLoaded 70
       [srv 1 100 90 True, srv 2 100 40 True, srv 3 100 40 True, srv 4 200 0 False] =
     ([srv 1 100 90 True, srv 2 100 100 True, srv 3 100 50 True, srv 4 200 0 False], 0, [])"
    by (simp add: distributeLoadLeastLoaded_def leastLoadedLoop.simps leastLoadedStep_def
        getAvailableCapacity_def setCurrentLoad_def)
  from leastLoaded_greedy [OF ids loads, of 70] step
  have "leastLoadedLoop
      [srv 1 100 90 True, srv 2 100 40 True, srv 3 100 40 True, srv 4 200 0 False] 70 =
     leastLoadedLoop
      [srv 1 100 90 True, srv 2 100 100 True, srv 3 100 40 True, srv 4 200 0 False] 10"
    by simp
  with step most final show ?thesis by simp
qed


section \<open>Least Loaded conserves the load\<close>


text \<open>
  The balance of claim C1 does hold on the Least Loaded path, for every registry with
  loads that are not negative and every request that is not negative: what the servers
  gain and what the warning reports add up to the request.
\<close>

lemma leastLoadedStep_conserves:
  assumes step: "leastLoadedStep srvs r = Some (s1, r1)" and pos: "0 < r"
    and loads: "\<forall>s \<in> set srvs. 0 \<le> currentLoad s"
  shows "getTotalLoad s1 + r1 = getTotalLoad srvs + r \<and> length s1 = length srvs \<and>
     (\<forall>s \<in> set s1. 0 \<le> currentLoad s) \<and> 0 \<le> r1"
proof -
  from leastLoadedStep_Some [OF step] obtain b where b: "b < length srvs"
      "0 < getAvailableCapacity (srvs ! b)"
      "s1 = srvs[b := setCurrentLoad
                (currentLoad (srvs ! b) + min r (getAvailableCapacity (srvs ! b))) (srvs ! b)]"
      "r1 = r - min r (getAvailableCapacity (srvs ! b))"
    by blast
  let ?add = "min r (getAvailableCapacity (srvs ! b))"
  have cur: "0 \<le> currentLoad (srvs ! b)" using loads b(1) by simp
  have add: "\<not> currentLoad (srvs ! b) + ?add < 0" using cur pos b(2) by (simp add: min_def)
  have new: "currentLoad (setCurrentLoad (currentLoad (srvs ! b) + ?add) (srvs ! b)) =
      currentLoad (srvs ! b) + ?add"
    using add by (simp add: setCurrentLoad_def)
  have total: "getTotalLoad s1 + r1 = getTotalLoad srvs + r"
    unfolding b(3) b(4) using b(1) by (simp add: getTotalLoad_update new)
  have nonneg: "\<forall>s \<in> set s1. 0 \<le> currentLoad s"
  proof
    fix s assume "s \<in> set s1"
    then have "s \<in> insert (setCurrentLoad (currentLoad (srvs ! b) + ?add) (srvs ! b)) (set srvs)"
      unfolding b(3) using set_update_subset_insert by fastforce
    with loads show "0 \<le> currentLoad s" by (auto simp: setCurrentLoad_def)
  qed
  from total nonneg b(3,4) show ?thesis by simp
qed

lemma leastLoadedLoop_conserves:
  "\<forall>s \<in> set srvs. 0 \<le> currentLoad s \<Longrightarrow> leastLoadedLoop srvs r = (srvs', r', msgs) \<Longrightarrow>
     getTotalLoad srvs' + r' = getTotalLoad srvs + r \<and> length srvs' = length srvs"
proof (induction srvs r rule: leastLoadedLoop.induct)
  case (1 srvs remainingLoad)
  show ?case
  proof (cases "0 < remainingLoad")
    case False
    then have "leastLoadedLoop srvs remainingLoad = (srvs, remainingLoad, [])"
      by (subst leastLoadedLoop.simps) simp
    with "1.prems" show ?thesis by simp
  next
    case pos: True
    show ?thesis
    proof (cases "leastLoadedStep srvs remainingLoad")
      case None
      with pos have "leastLoadedLoop srvs remainingLoad =
          (srvs, remainingLoad, [InsufficientCapacity remainingLoad])"
        by (subst leastLoadedLoop.simps) simp
      with "1.prems" show ?thesis by simp
    next
      case (Some st)
      obtain s1 r1 where st: "st = (s1, r1)" by (cases st) auto
      note c = leastLoadedStep_conserves [OF Some [unfolded st] pos "1.prems"(1)]
      have "leastLoadedLoop srvs remainingLoad = leastLoadedLoop s1 r1"
        using pos Some st by (subst leastLoadedLoop.simps) simp
      with "1.prems" have l: "leastLoadedLoop s1 r1 = (srvs', r', msgs)" by simp
      from "1.IH" [OF pos Some] st c l
      have "getTotalLoad srvs' + r' = getTotalLoad s1 + r1 \<and> length srvs' = length s1"
        by simp
      with c show ?thesis by simp
    qed
  qed
qed

lemma leastLoaded_conserves:
  assumes loads: "\<forall>s \<in> set srvs. 0 \<le> currentLoad s" and L: "0 \<le> L"
  shows "sum_list (perServerDelta srvs (fst (distributeLoadLeastLoaded L srvs)))
      + undistributed L (snd (snd (distributeLoadLeastLoaded L srvs))) = L"
proof (cases "srvs = []")
  case True
  then show ?thesis by (simp add: distributeLoadLeastLoaded_def perServerDelta_def)
next
  case False
  obtain s1 r1 m1 where l: "leastLoadedLoop srvs L = (s1, r1, m1)"
    by (cases "leastLoadedLoop srvs L") auto
  from leastLoadedLoop_conserves [OF loads l]
  have c: "getTotalLoad s1 + r1 = getTotalLoad srvs + L" "length s1 = length srvs" by simp_all
  from leastLoadedLoop_final [OF L l]
  have "undistributed L m1 = r1" by (auto split: if_splits)
  with c False l show ?thesis
    by (simp add: distributeLoadLeastLoaded_def perServerDelta_sum)
qed

text \<open>The loop touches nothing but loads.\<close>

lemma leastLoadedLoop_frame:
  "map (setCurrentLoad 0) (fst (leastLoadedLoop srvs r)) = map (setCurrentLoad 0) srvs"
proof (induction srvs r rule: leastLoadedLoop.induct)
  case (1 srvs remainingLoad)
  show ?case
  proof (cases "0 < remainingLoad")
    case False
    then show ?thesis by (subst leastLoadedLoop.simps) simp
  next
    case pos: True
    show ?thesis
    proof (cases "leastLoadedStep srvs remainingLoad")
      case None
      with pos show ?thesis by (subst leastLoadedLoop.simps) simp
    next
      case (Some st)
      have "map (setCurrentLoad 0) (fst st) = map (setCurrentLoad 0) srvs"
        using Some
        by (auto simp: leastLoadedStep_def Let_def cleared_update split: option.splits if_splits)
      moreover have "leastLoadedLoop srvs remainingLoad = leastLoadedLoop (fst st) (snd st)"
        using pos Some by (subst leastLoadedLoop.simps) simp
      ultimately show ?thesis using "1.IH" [OF pos Some] by simp
    qed
  qed
qed


section \<open>Round Robin divides by the number of all servers\<close>


text \<open>
  For a request between 0 and \<open>2^31\<close> the two conversions around the unsigned division
  change nothing: the base load is \<open>loadAmount div n\<close> and the remainder
  \<open>loadAmount mod n\<close>, where \<open>n\<close> is the number of all servers, online or not.
\<close>

lemma size_t_of_int_nonneg: "0 \<le> L \<Longrightarrow> L < 2 ^ 31 \<Longrightarrow> size_t_of_int L = nat L"
proof -
  assume a: "0 \<le> L" "L < 2 ^ 31"
  have "(2::int) ^ 31 \<le> 2 ^ 64" by simp
  with a have "L mod 2 ^ 64 = L" by (intro mod_pos_pos_trivial) linarith+
  then show ?thesis by (simp add: size_t_of_int_def)
qed

lemma int_of_size_t_small: "int u < 2 ^ 31 \<Longrightarrow> int_of_size_t u = int u"
proof -
  assume a: "int u < 2 ^ 31"
  have "(2::int) ^ 31 \<le> 2 ^ 32" by simp
  with a have "int u mod 2 ^ 32 = int u" by (intro mod_pos_pos_trivial) linarith+
  with a show ?thesis by (simp add: int_of_size_t_def Let_def)
qed

lemma roundRobin_quotient:
  assumes "0 \<le> L" "L < 2 ^ 31"
  shows "int_of_size_t (size_t_of_int L div n) = L div int n"
    and "int_of_size_t (size_t_of_int L mod n) = L mod int n"
proof -
  have s: "size_t_of_int L = nat L" using assms by (rule size_t_of_int_nonneg)
  have d: "int (nat L div n) = L div int n" using assms(1) by (simp add: zdiv_int)
  have m: "int (nat L mod n) = L mod int n" using assms(1) by (simp add: zmod_int)
  have "nat L div n \<le> nat L" by (rule div_le_dividend)
  then have "int (nat L div n) \<le> int (nat L)" by (simp only: of_nat_le_iff)
  with assms have "int (nat L div n) < 2 ^ 31" by simp
  then show "int_of_size_t (size_t_of_int L div n) = L div int n"
    using d s by (simp add: int_of_size_t_small)
  have "nat L mod n \<le> nat L" by (rule mod_less_eq_dividend)
  then have "int (nat L mod n) \<le> int (nat L)" by (simp only: of_nat_le_iff)
  with assms have "int (nat L mod n) < 2 ^ 31" by simp
  then show "int_of_size_t (size_t_of_int L mod n) = L mod int n"
    using m s by (simp add: int_of_size_t_small)
qed

lemmas roundRobin_eval =
  distributeLoadRoundRobin_def roundRobinVisit_def roundRobin_quotient setCurrentLoad_def
  upt_rec [of 0] upt_rec [of 1] upt_rec [of 2] Let_def

text \<open>
  Round Robin keeps the balance, and splits a divisible request evenly, when every server
  is online: then the number of all servers is the number of online servers.
\<close>

lemma roundRobinVisit_online:
  assumes i: "i < length srvs" and on: "online (srvs ! i)" and cur: "0 \<le> currentLoad (srvs ! i)"
    and base: "0 \<le> base"
  shows "roundRobinVisit 0 base i (srvs, rem) =
     (srvs[i := (srvs ! i)\<lparr>currentLoad :=
                 currentLoad (srvs ! i) + (base + (if 0 < rem then 1 else 0))\<rparr>],
      rem - (if 0 < rem then 1 else 0))"
  using assms by (simp add: roundRobinVisit_def setCurrentLoad_def Let_def)

lemma roundRobin_fold:
  assumes "\<forall>s \<in> set srvs. online s \<and> 0 \<le> currentLoad s" and "0 \<le> base" and "0 \<le> rem"
    and "distinct js" and "\<forall>i \<in> set js. i < length srvs"
  shows "length (fst (fold (roundRobinVisit 0 base) js (srvs, rem))) = length srvs \<and>
     (\<forall>s \<in> set (fst (fold (roundRobinVisit 0 base) js (srvs, rem))).
        online s \<and> 0 \<le> currentLoad s) \<and>
     snd (fold (roundRobinVisit 0 base) js (srvs, rem)) = max 0 (rem - int (length js)) \<and>
     getTotalLoad (fst (fold (roundRobinVisit 0 base) js (srvs, rem))) =
       getTotalLoad srvs + int (length js) * base
         + (rem - snd (fold (roundRobinVisit 0 base) js (srvs, rem))) \<and>
     (rem = 0 \<longrightarrow> (\<forall>j < length srvs.
        fst (fold (roundRobinVisit 0 base) js (srvs, rem)) ! j =
          (if j \<in> set js then (srvs ! j)\<lparr>currentLoad := currentLoad (srvs ! j) + base\<rparr>
           else srvs ! j)))"
  using assms
proof (induction js arbitrary: srvs rem)
  case Nil
  then show ?case by simp
next
  case (Cons i js)
  define extra :: int where "extra = (if 0 < rem then 1 else 0)"
  define s1 where "s1 = srvs[i := (srvs ! i)\<lparr>currentLoad :=
                 currentLoad (srvs ! i) + (base + extra)\<rparr>]"
  define r1 where "r1 = rem - extra"
  define res where "res = fold (roundRobinVisit 0 base) js (s1, r1)"
  from Cons.prems have i: "i < length srvs" and on: "online (srvs ! i)"
    and cur: "0 \<le> currentLoad (srvs ! i)" and notin: "i \<notin> set js"
    by auto
  have extra: "0 \<le> extra" "extra \<le> rem" "rem = 0 \<longrightarrow> extra = 0" "0 < rem \<longrightarrow> extra = 1"
    using Cons.prems(3) by (auto simp: extra_def)
  have visit: "roundRobinVisit 0 base i (srvs, rem) = (s1, r1)"
    unfolding s1_def r1_def extra_def using i on cur Cons.prems(2) by (rule roundRobinVisit_online)
  have p1: "\<forall>s \<in> set s1. online s \<and> 0 \<le> currentLoad s"
  proof
    fix s assume "s \<in> set s1"
    then have "s \<in> insert ((srvs ! i)\<lparr>currentLoad :=
        currentLoad (srvs ! i) + (base + extra)\<rparr>) (set srvs)"
      unfolding s1_def using set_update_subset_insert by fastforce
    with Cons.prems(1,2) on cur extra(1) show "online s \<and> 0 \<le> currentLoad s" by auto
  qed
  have p3: "0 \<le> r1" using extra by (simp add: r1_def)
  have p4: "distinct js" using Cons.prems(4) by simp
  have p5: "\<forall>k \<in> set js. k < length s1" using Cons.prems(5) by (simp add: s1_def)
  note IH = Cons.IH [OF p1 Cons.prems(2) p3 p4 p5, folded res_def]
  have f: "fold (roundRobinVisit 0 base) (i # js) (srvs, rem) = res"
    by (simp add: visit res_def)
  have len1: "length s1 = length srvs" by (simp add: s1_def)
  have tl: "getTotalLoad s1 = getTotalLoad srvs + base + extra"
    using i by (simp add: s1_def getTotalLoad_update)
  have a: "length (fst res) = length srvs"
    using IH len1 by simp
  have b: "\<forall>s \<in> set (fst res). online s \<and> 0 \<le> currentLoad s"
    using IH by blast
  from IH have "snd res = max 0 (r1 - int (length js))" by blast
  then have c: "snd res = max 0 (rem - int (length (i # js)))"
    using extra Cons.prems(3) by (auto simp: r1_def max_def)
  from IH have "getTotalLoad (fst res) =
      getTotalLoad s1 + int (length js) * base + (r1 - snd res)" by blast
  then have d: "getTotalLoad (fst res) =
      getTotalLoad srvs + int (length (i # js)) * base + (rem - snd res)"
    by (simp add: tl r1_def algebra_simps)
  have e: "rem = 0 \<longrightarrow> (\<forall>j < length srvs.
        fst res ! j =
          (if j \<in> set (i # js) then (srvs ! j)\<lparr>currentLoad := currentLoad (srvs ! j) + base\<rparr>
           else srvs ! j))"
  proof (intro impI allI)
    fix j assume r0: "rem = 0" and j: "j < length srvs"
    from r0 extra have r10: "r1 = 0" and e0: "extra = 0" by (simp_all add: r1_def)
    from IH r10 j len1 have "fst res ! j =
          (if j \<in> set js then (s1 ! j)\<lparr>currentLoad := currentLoad (s1 ! j) + base\<rparr>
           else s1 ! j)"
      by simp
    then show "fst res ! j =
          (if j \<in> set (i # js) then (srvs ! j)\<lparr>currentLoad := currentLoad (srvs ! j) + base\<rparr>
           else srvs ! j)"
      using e0 i j notin by (auto simp: s1_def nth_list_update)
  qed
  from a b c d e show ?case unfolding f by (intro conjI)
qed

lemma roundRobin_all_online_unfold:
  assumes ne: "srvs \<noteq> []" and on: "\<forall>s \<in> set srvs. online s \<and> 0 \<le> currentLoad s"
    and L: "0 \<le> L" "L < 2 ^ 31"
  shows "distributeLoadRoundRobin L srvs =
     (fst (fold (roundRobinVisit 0 (L div int (length srvs))) [0..<length srvs]
             (srvs, L mod int (length srvs))), [])"
proof -
  from ne on have "findFirstOnline srvs = 0" by (cases srvs) auto
  with ne show ?thesis
    by (simp add: distributeLoadRoundRobin_def Let_def roundRobin_quotient [OF L])
qed

lemma roundRobin_all_online_conserves:
  assumes ne: "srvs \<noteq> []" and on: "\<forall>s \<in> set srvs. online s \<and> 0 \<le> currentLoad s"
    and L: "0 \<le> L" "L < 2 ^ 31"
  shows "sum_list (perServerDelta srvs (fst (distributeLoadRoundRobin L srvs)))
      + undistributed L (snd (distributeLoadRoundRobin L srvs)) = L"
proof -
  let ?n = "int (length srvs)"
  let ?res = "fold (roundRobinVisit 0 (L div ?n)) [0..<length srvs] (srvs, L mod ?n)"
  have n: "0 < ?n" using ne by simp
  have base: "0 \<le> L div ?n" using L(1) n by (simp add: pos_imp_zdiv_nonneg_iff)
  have rem: "0 \<le> L mod ?n" "L mod ?n < ?n" using n by simp_all
  have "distinct [0..<length srvs]" "\<forall>i \<in> set [0..<length srvs]. i < length srvs" by simp_all
  from roundRobin_fold [OF on base rem(1) this]
  have len: "length (fst ?res) = length srvs"
    and r: "snd ?res = max 0 (L mod ?n - int (length [0..<length srvs]))"
    and tot: "getTotalLoad (fst ?res) =
       getTotalLoad srvs + int (length [0..<length srvs]) * (L div ?n) + (L mod ?n - snd ?res)"
    by blast+
  from r rem(2) have r0: "snd ?res = 0" by simp
  have "getTotalLoad (fst ?res) = getTotalLoad srvs + (?n * (L div ?n) + L mod ?n)"
    using tot r0 by simp
  then have "getTotalLoad (fst ?res) = getTotalLoad srvs + L" by simp
  with len show ?thesis
    by (simp add: roundRobin_all_online_unfold [OF ne on L] perServerDelta_sum)
qed

lemma roundRobin_all_online_divisible:
  assumes ne: "srvs \<noteq> []" and on: "\<forall>s \<in> set srvs. online s \<and> 0 \<le> currentLoad s"
    and L: "0 \<le> L" "L < 2 ^ 31"
    and dv: "int (length (filter online srvs)) dvd L"
  shows "fst (distributeLoadRoundRobin L srvs) =
     map (\<lambda>s. s\<lparr>currentLoad := currentLoad s + L div int (length (filter online srvs))\<rparr>) srvs"
proof -
  have all: "filter online srvs = srvs" using on by (simp add: filter_id_conv)
  let ?n = "int (length srvs)"
  let ?res = "fold (roundRobinVisit 0 (L div ?n)) [0..<length srvs] (srvs, L mod ?n)"
  have n: "0 < ?n" using ne by simp
  have base: "0 \<le> L div ?n" using L(1) n by (simp add: pos_imp_zdiv_nonneg_iff)
  have rem: "L mod ?n = 0" using dv all by simp
  have "distinct [0..<length srvs]" "\<forall>i \<in> set [0..<length srvs]. i < length srvs" by simp_all
  from roundRobin_fold [OF on base _ this, of "L mod ?n"] rem
  have len: "length (fst ?res) = length srvs"
    and pt: "\<forall>j < length srvs. fst ?res ! j =
          (if j \<in> set [0..<length srvs]
           then (srvs ! j)\<lparr>currentLoad := currentLoad (srvs ! j) + L div ?n\<rparr>
           else srvs ! j)"
    by simp_all
  have "fst ?res = map (\<lambda>s. s\<lparr>currentLoad := currentLoad s + L div ?n\<rparr>) srvs"
    using len pt by (intro nth_equalityI) simp_all
  then show ?thesis
    by (simp add: roundRobin_all_online_unfold [OF ne on L] all)
qed

text \<open>The loop touches nothing but loads.\<close>

lemma roundRobin_fold_frame:
  "map (setCurrentLoad 0) (fst (fold (roundRobinVisit startIdx base) js st)) =
     map (setCurrentLoad 0) (fst st)"
proof (induction js arbitrary: st)
  case Nil
  show ?case by simp
next
  case (Cons i js)
  have "map (setCurrentLoad 0) (fst (roundRobinVisit startIdx base i st)) =
      map (setCurrentLoad 0) (fst st)"
    by (simp add: roundRobinVisit_def Let_def cleared_update)
  with Cons.IH [of "roundRobinVisit startIdx base i st"] show ?case by simp
qed

text \<open>
  Claim C2 fails on the code. Three servers, the second offline, and a request of 6: two
  servers are online and 6 is divisible by 2, so each should receive 3; the code divides
  by 3, the number of all servers, and each online server receives 2.
\<close>

theorem roundRobin_divides_by_all_servers:
  "distributeLoadRoundRobin 6 [srv 1 100 0 True, srv 2 100 0 False, srv 3 100 0 True] =
     ([srv 1 100 2 True, srv 2 100 0 False, srv 3 100 2 True], [])"
  by (simp add: roundRobin_eval)

text \<open>
  Claim C1 fails on the code. Two servers, the second offline, and a request of 2 under
  Round Robin: the base load is \<open>2 div 2 = 1\<close>, server 1 receives it, the share of the
  offline server is handed to nobody and no message is printed. The loads rise by 1 in
  total and nothing is reported as undistributed, for a request of 2.
\<close>

theorem roundRobin_drops_load:
  "distributeLoadRoundRobin 2 [srv 1 100 0 True, srv 2 100 0 False] =
     ([srv 1 100 1 True, srv 2 100 0 False], []) \<and>
   sum_list (perServerDelta [srv 1 100 0 True, srv 2 100 0 False]
       (fst (distributeLoadRoundRobin 2 [srv 1 100 0 True, srv 2 100 0 False])))
     + undistributed 2 (snd (distributeLoadRoundRobin 2 [srv 1 100 0 True, srv 2 100 0 False]))
     = 1"
proof -
  have e: "distributeLoadRoundRobin 2 [srv 1 100 0 True, srv 2 100 0 False] =
     ([srv 1 100 1 True, srv 2 100 0 False], [])"
    by (simp add: roundRobin_eval)
  show ?thesis by (simp add: e perServerDelta_def)
qed


section \<open>Weighted Optimization and the available capacity\<close>


text \<open>
  Weighted Optimization keeps the balance when no online server is loaded beyond its
  capacity, capacities and multipliers are not negative and the truncated shares add up
  to no more than the request: the remainder loop moves units from \<^verbatim>\<open>remainingLoad\<close>
  into \<^verbatim>\<open>idealLoads\<close> one by one, and every entry that is applied is positive or
  zero.
\<close>

lemma remainderPass_sum:
  "remainderPass srvs xs r d = (ys, r', d') \<Longrightarrow>
     length ys = length xs \<and> sum_list ys + r' = sum_list xs + r \<and>
     ((\<forall>x \<in> set xs. 0 \<le> x) \<longrightarrow> (\<forall>y \<in> set ys. 0 \<le> y)) \<and> (0 \<le> r \<longrightarrow> 0 \<le> r')"
proof (induction srvs xs r d arbitrary: ys r' d' rule: remainderPass.induct)
  case (1 server rest x xs remainingLoad distributed)
  show ?case
  proof (cases "remainingLoad > 0")
    case False
    with "1.prems" show ?thesis by auto
  next
    case pos: True
    show ?thesis
    proof (cases "online server \<and> getAvailableCapacity server - x > 0")
      case True
      obtain zs q e where r: "remainderPass rest xs (remainingLoad - 1) True = (zs, q, e)"
        by (cases "remainderPass rest xs (remainingLoad - 1) True") auto
      note IH = "1.IH"(1) [OF pos True r]
      from "1.prems" pos True r have eq: "ys = (x + 1) # zs" "r' = q" by (auto simp: Let_def)
      from IH pos show ?thesis unfolding eq by simp
    next
      case False
      obtain zs q e where r: "remainderPass rest xs remainingLoad distributed = (zs, q, e)"
        by (cases "remainderPass rest xs remainingLoad distributed") auto
      note IH = "1.IH"(2) [OF pos False r]
      from "1.prems" pos False r have eq: "ys = x # zs" "r' = q" by (auto simp: Let_def)
      from IH show ?thesis unfolding eq by simp
    qed
  qed
qed auto

lemma remainderLoop_sum:
  "remainderLoop srvs xs r = (ys, r') \<Longrightarrow>
     length ys = length xs \<and> sum_list ys + r' = sum_list xs + r \<and>
     ((\<forall>x \<in> set xs. 0 \<le> x) \<longrightarrow> (\<forall>y \<in> set ys. 0 \<le> y)) \<and> (0 \<le> r \<longrightarrow> 0 \<le> r')"
proof (induction srvs xs r arbitrary: ys r' rule: remainderLoop.induct)
  case (1 srvs idealLoads remainingLoad)
  show ?case
  proof (cases "remainingLoad > 0")
    case False
    then have "remainderLoop srvs idealLoads remainingLoad = (idealLoads, remainingLoad)"
      by (subst remainderLoop.simps) simp
    with "1.prems" have "ys = idealLoads" "r' = remainingLoad" by simp_all
    then show ?thesis by simp
  next
    case pos: True
    obtain zs q e where p: "remainderPass srvs idealLoads remainingLoad False = (zs, q, e)"
      by (cases "remainderPass srvs idealLoads remainingLoad False") auto
    from remainderPass_sum [OF p]
    have ps1: "length zs = length idealLoads"
      and ps2: "sum_list zs + q = sum_list idealLoads + remainingLoad"
      and ps3: "(\<forall>x \<in> set idealLoads. 0 \<le> x) \<longrightarrow> (\<forall>y \<in> set zs. 0 \<le> y)"
      and ps4: "0 \<le> remainingLoad \<longrightarrow> 0 \<le> q"
      by blast+
    have q: "0 \<le> q" using ps4 pos by simp
    show ?thesis
    proof (cases e)
      case False
      with pos p have "remainderLoop srvs idealLoads remainingLoad = (zs, q)"
        by (subst remainderLoop.simps) simp
      with "1.prems" have "ys = zs" "r' = q" by simp_all
      with ps1 ps2 ps3 q show ?thesis by blast
    next
      case True
      with pos p have "remainderLoop srvs idealLoads remainingLoad = remainderLoop srvs zs q"
        by (subst remainderLoop.simps) simp
      with "1.prems" have l: "remainderLoop srvs zs q = (ys, r')" by simp
      have "length ys = length zs \<and> sum_list ys + r' = sum_list zs + q \<and>
          ((\<forall>x \<in> set zs. 0 \<le> x) \<longrightarrow> (\<forall>y \<in> set ys. 0 \<le> y)) \<and> (0 \<le> q \<longrightarrow> 0 \<le> r')"
        using "1.IH" [OF pos refl, unfolded p fst_conv snd_conv, OF _ l] True by simp
      then have i1: "length ys = length zs" and i2: "sum_list ys + r' = sum_list zs + q"
        and i3: "(\<forall>x \<in> set zs. 0 \<le> x) \<longrightarrow> (\<forall>y \<in> set ys. 0 \<le> y)" and i4: "0 \<le> r'"
        using q by blast+
      have a: "length ys = length idealLoads" using i1 ps1 by simp
      have b: "sum_list ys + r' = sum_list idealLoads + remainingLoad" using i2 ps2 by simp
      have c: "(\<forall>x \<in> set idealLoads. 0 \<le> x) \<longrightarrow> (\<forall>y \<in> set ys. 0 \<le> y)"
        using i3 ps3 by blast
      from a b c i4 show ?thesis by blast
    qed
  qed
qed

lemma applyLoads_total:
  "length xs = length srvs \<Longrightarrow> \<forall>x \<in> set xs. 0 \<le> x \<Longrightarrow> \<forall>s \<in> set srvs. 0 \<le> currentLoad s \<Longrightarrow>
     getTotalLoad (applyLoads srvs xs) = getTotalLoad srvs + sum_list xs \<and>
     length (applyLoads srvs xs) = length srvs"
proof (induction srvs xs rule: applyLoads.induct)
  case (1 server rest x xs)
  then show ?case by (auto simp: setCurrentLoad_def)
qed auto

lemma applyLoads_frame:
  "map (setCurrentLoad 0) (applyLoads srvs xs) = map (setCurrentLoad 0) srvs"
  by (induction srvs xs rule: applyLoads.induct) (auto simp: setCurrentLoad_def)

lemma getEffectiveCapacity_nonneg:
  "0 \<le> capacity s \<Longrightarrow> 0 \<le> performanceMultiplier s \<Longrightarrow> 0 \<le> getEffectiveCapacity s"
  by (simp add: getEffectiveCapacity_def round_double_nonneg)

lemma idealLoadOf_nonneg:
  assumes t: "0 < totalCap" and L: "0 \<le> L"
    and s: "online s \<longrightarrow> 0 \<le> capacity s \<and> 0 \<le> performanceMultiplier s \<and>
        currentLoad s \<le> capacity s"
  shows "0 \<le> idealLoadOf totalCap L s"
proof (cases "online s")
  case False
  then show ?thesis by (simp add: idealLoadOf_def)
next
  case True
  define x where
    "x = round_double (round_double (getEffectiveCapacity s / totalCap) * real_of_int L)"
  have "0 \<le> getEffectiveCapacity s" using s True by (simp add: getEffectiveCapacity_nonneg)
  then have "0 \<le> round_double (getEffectiveCapacity s / totalCap)"
    using t by (intro round_double_nonneg) simp
  then have "0 \<le> round_double (getEffectiveCapacity s / totalCap) * real_of_int L"
    using L by simp
  then have x: "0 \<le> x"
    unfolding x_def by (rule round_double_nonneg)
  then have tr: "static_cast_int x = \<lfloor>x\<rfloor>" by (simp add: static_cast_int_def)
  have f0: "0 \<le> \<lfloor>x\<rfloor>" using x by simp
  have av: "0 \<le> getAvailableCapacity s" using s True by (simp add: getAvailableCapacity_def)
  have "idealLoadOf totalCap L s =
      (if static_cast_int x > getAvailableCapacity s then getAvailableCapacity s
       else static_cast_int x)"
    using True by (simp add: idealLoadOf_def Let_def x_def)
  then have "idealLoadOf totalCap L s = min \<lfloor>x\<rfloor> (getAvailableCapacity s)"
    by (simp add: tr min_def)
  with f0 av show ?thesis by simp
qed

lemma weightedOptimization_conserves:
  assumes loads: "\<forall>s \<in> set srvs. 0 \<le> currentLoad s" and L: "0 \<le> L"
    and s: "\<forall>s \<in> set srvs. online s \<longrightarrow> 0 \<le> capacity s \<and> 0 \<le> performanceMultiplier s \<and>
        currentLoad s \<le> capacity s"
    and within: "sum_list (map (idealLoadOf (totalEffectiveCapacity srvs) L) srvs) \<le> L"
  shows "sum_list (perServerDelta srvs (fst (distributeLoadWeightedOptimization L srvs)))
      + undistributed L (snd (snd (distributeLoadWeightedOptimization L srvs))) = L"
proof (cases "srvs = [] \<or> totalEffectiveCapacity srvs \<le> 0")
  case True
  then show ?thesis
    by (auto simp: distributeLoadWeightedOptimization_def Let_def perServerDelta_sum)
next
  case False
  then have ne: "srvs \<noteq> []" and t: "0 < totalEffectiveCapacity srvs" by auto
  let ?ideal = "map (idealLoadOf (totalEffectiveCapacity srvs) L) srvs"
  obtain ys r' where l: "remainderLoop srvs ?ideal (L - sum_list ?ideal) = (ys, r')"
    by (cases "remainderLoop srvs ?ideal (L - sum_list ?ideal)") auto
  have i: "\<forall>x \<in> set ?ideal. 0 \<le> x"
    using idealLoadOf_nonneg [OF t L] s by auto
  from remainderLoop_sum [OF l] i within
  have len: "length ys = length srvs" and sum: "sum_list ys + r' = L"
    and nonneg: "\<forall>y \<in> set ys. 0 \<le> y" and r': "0 \<le> r'"
    by auto
  from applyLoads_total [OF len nonneg loads]
  have tot: "getTotalLoad (applyLoads srvs ys) = getTotalLoad srvs + sum_list ys"
    and len': "length (applyLoads srvs ys) = length srvs" by simp_all
  have d: "distributeLoadWeightedOptimization L srvs =
      (applyLoads srvs ys, r', if 0 < r' then [InsufficientCapacity r'] else [])"
    using ne t l by (simp add: distributeLoadWeightedOptimization_def Let_def)
  show ?thesis
    unfolding d using tot len' sum r' by (auto simp: perServerDelta_sum)
qed

text \<open>
  Weighted Optimization breaks the same balance in the other direction. Three servers
  that Round Robin has loaded to 150 of 100, and a fourth with 95 of 100: a request of 4
  gives each server the ideal load 1, the cap at the (negative) available capacity turns
  the first three into \<open>-50\<close>, so \<open>remainingLoad\<close> becomes \<open>4 - (-149) = 153\<close>. Server 4
  is filled with 5 units and 149 are reported as undistributed.
\<close>

lemma weightedOptimization_fabricates_load:
  "distributeLoadWeightedOptimization 4
     [srv 1 100 150 True, srv 2 100 150 True, srv 3 100 150 True, srv 4 100 95 True] =
    ([srv 1 100 150 True, srv 2 100 150 True, srv 3 100 150 True, srv 4 100 100 True],
     149, [InsufficientCapacity 149])"
  by (simp add: distributeLoadWeightedOptimization_def totalEffectiveCapacity_def idealLoadOf_def
     getEffectiveCapacity_def getAvailableCapacity_def static_cast_int_def remainderLoop.simps
     setCurrentLoad_def round_double_eval)


section \<open>The three policies, rebalancing and the removal of a server\<close>


text \<open>
  The three policies together: Least Loaded always keeps the balance, Round Robin when
  every server is online, Weighted Optimization when no online server is over capacity
  and the truncated shares stay within the request.
\<close>

lemma addSystemLoad_conserves:
  assumes loads: "\<forall>s \<in> set srvs. 0 \<le> currentLoad s" and L: "0 \<le> L" "L < 2 ^ 31"
    and rr: "algorithm = ROUND_ROBIN \<longrightarrow> (\<forall>s \<in> set srvs. online s)"
    and wo: "algorithm = WEIGHTED_OPTIMIZATION \<longrightarrow>
        (\<forall>s \<in> set srvs. online s \<longrightarrow> 0 \<le> capacity s \<and> 0 \<le> performanceMultiplier s \<and>
           currentLoad s \<le> capacity s) \<and>
        sum_list (map (idealLoadOf (totalEffectiveCapacity srvs) L) srvs) \<le> L"
  shows "sum_list (perServerDelta srvs (fst (addSystemLoad algorithm L srvs)))
      + undistributed L (snd (addSystemLoad algorithm L srvs)) = L"
proof (cases algorithm)
  case ROUND_ROBIN
  show ?thesis
  proof (cases "srvs = []")
    case True
    with ROUND_ROBIN show ?thesis
      by (simp add: addSystemLoad_def distributeLoadRoundRobin_def perServerDelta_def)
  next
    case False
    from rr ROUND_ROBIN loads have "\<forall>s \<in> set srvs. online s \<and> 0 \<le> currentLoad s" by simp
    from roundRobin_all_online_conserves [OF False this L] ROUND_ROBIN show ?thesis
      by (simp add: addSystemLoad_def)
  qed
next
  case LEAST_LOADED
  with leastLoaded_conserves [OF loads L(1)] show ?thesis
    by (simp add: addSystemLoad_def Let_def)
next
  case WEIGHTED_OPTIMIZATION
  with wo have s: "\<forall>s \<in> set srvs. online s \<longrightarrow> 0 \<le> capacity s \<and> 0 \<le> performanceMultiplier s \<and>
           currentLoad s \<le> capacity s"
    and within: "sum_list (map (idealLoadOf (totalEffectiveCapacity srvs) L) srvs) \<le> L"
    by simp_all
  from weightedOptimization_conserves [OF loads L(1) s within] WEIGHTED_OPTIMIZATION
  show ?thesis
    by (simp add: addSystemLoad_def Let_def)
qed

text \<open>
  A distribution call changes nothing but loads, so a rebalance is a function of the
  cleared registry, the policy and the total load; a second rebalance repeats the first
  whenever the first one kept the total.
\<close>

lemma addSystemLoad_frame:
  "map (setCurrentLoad 0) (fst (addSystemLoad algorithm L srvs)) = map (setCurrentLoad 0) srvs"
proof (cases algorithm)
  case ROUND_ROBIN
  then show ?thesis
    by (simp add: addSystemLoad_def distributeLoadRoundRobin_def Let_def roundRobin_fold_frame)
next
  case LEAST_LOADED
  then show ?thesis
    by (simp add: addSystemLoad_def distributeLoadLeastLoaded_def Let_def leastLoadedLoop_frame)
next
  case WEIGHTED_OPTIMIZATION
  then show ?thesis
    by (simp add: addSystemLoad_def distributeLoadWeightedOptimization_def Let_def
        applyLoads_frame)
qed

lemma rebalance_idempotent_if_total_kept:
  assumes kept: "getTotalLoad (servers (fst (rebalanceLoads lb))) = getTotalLoad (servers lb)"
  shows "rebalanceLoads (fst (rebalanceLoads lb)) = rebalanceLoads lb"
proof -
  let ?T = "getTotalLoad (servers lb)"
  let ?cleared = "map (setCurrentLoad 0) (servers lb)"
  let ?r = "addSystemLoad (currentAlgorithm lb) ?T ?cleared"
  have one: "rebalanceLoads lb = (lb\<lparr>servers := fst ?r\<rparr>, snd ?r)"
    by (simp add: rebalanceLoads_def Let_def)
  have "map (setCurrentLoad 0) (fst ?r) = map (setCurrentLoad 0) ?cleared"
    by (rule addSystemLoad_frame)
  also have "\<dots> = ?cleared" by (simp add: setCurrentLoad_def)
  finally have cl: "map (setCurrentLoad 0) (fst ?r) = ?cleared" .
  from kept one have T: "getTotalLoad (fst ?r) = ?T" by simp
  show ?thesis
    unfolding one by (simp add: rebalanceLoads_def Let_def cl T)
qed

text \<open>
  Claim C5 fails on the code. Under Round Robin, with server 1 online at load 4 and
  server 2 offline, the first rebalance leaves server 1 with 2 and the second with 1.
\<close>

theorem rebalance_twice_differs:
  "servers (fst (rebalanceLoads
      \<lparr>servers = [srv 1 100 4 True, srv 2 100 0 False], currentAlgorithm = ROUND_ROBIN,
       nextServerId = 3, randomLoadAmount = 10\<rparr>)) =
     [srv 1 100 2 True, srv 2 100 0 False] \<and>
   servers (fst (rebalanceLoads (fst (rebalanceLoads
      \<lparr>servers = [srv 1 100 4 True, srv 2 100 0 False], currentAlgorithm = ROUND_ROBIN,
       nextServerId = 3, randomLoadAmount = 10\<rparr>)))) =
     [srv 1 100 1 True, srv 2 100 0 False]"
  by (simp add: rebalanceLoads_def addSystemLoad_def roundRobin_eval)

text \<open>
  Removing a server that is not the last one: under the conditions in which the policy
  keeps the balance, the total after the removal and the shortfall the policy reports add
  up to the total before it.
\<close>

lemma removeServer_total:
  assumes found: "getServer sid (servers lb) = Some i"
    and rest: "take i (servers lb) @ drop (Suc i) (servers lb) \<noteq> []"
    and loads: "\<forall>s \<in> set (servers lb). 0 \<le> currentLoad s"
    and small: "currentLoad (servers lb ! i) < 2 ^ 31"
    and rr: "currentAlgorithm lb = ROUND_ROBIN \<longrightarrow> (\<forall>s \<in> set (servers lb). online s)"
    and wo: "currentAlgorithm lb = WEIGHTED_OPTIMIZATION \<longrightarrow>
        (\<forall>s \<in> set (servers lb). online s \<longrightarrow> 0 \<le> capacity s \<and> 0 \<le> performanceMultiplier s \<and>
           currentLoad s \<le> capacity s) \<and>
        sum_list (map (idealLoadOf
            (totalEffectiveCapacity (take i (servers lb) @ drop (Suc i) (servers lb)))
            (currentLoad (servers lb ! i)))
          (take i (servers lb) @ drop (Suc i) (servers lb))) \<le> currentLoad (servers lb ! i)"
  shows "getTotalLoad (servers (fst (removeServer sid lb)))
      + undistributed (currentLoad (servers lb ! i)) (snd (snd (removeServer sid lb)))
      = getTotalLoad (servers lb)"
proof -
  let ?rest = "take i (servers lb) @ drop (Suc i) (servers lb)"
  let ?load = "currentLoad (servers lb ! i)"
  from getServer_Some [OF found] have i: "i < length (servers lb)" by simp
  have sub: "set ?rest \<subseteq> set (servers lb)"
    using set_take_subset [of i "servers lb"] set_drop_subset [of "Suc i" "servers lb"] by auto
  have load: "0 \<le> ?load" using loads i by simp
  have er: "getTotalLoad ?rest = getTotalLoad (servers lb) - ?load"
    using i by (rule getTotalLoad_erase)
  show ?thesis
  proof (cases "0 < ?load")
    case False
    with load have "?load = 0" by simp
    with found er show ?thesis by (simp add: removeServer_def Let_def)
  next
    case True
    let ?r = "addSystemLoad (currentAlgorithm lb) ?load ?rest"
    have rm: "removeServer sid lb = (lb\<lparr>servers := fst ?r\<rparr>, True, snd ?r)"
      using found rest True by (simp add: removeServer_def Let_def)
    have l': "\<forall>s \<in> set ?rest. 0 \<le> currentLoad s" using loads sub by blast
    have rr': "currentAlgorithm lb = ROUND_ROBIN \<longrightarrow> (\<forall>s \<in> set ?rest. online s)"
      using rr sub by blast
    have wo': "currentAlgorithm lb = WEIGHTED_OPTIMIZATION \<longrightarrow>
        (\<forall>s \<in> set ?rest. online s \<longrightarrow> 0 \<le> capacity s \<and> 0 \<le> performanceMultiplier s \<and>
           currentLoad s \<le> capacity s) \<and>
        sum_list (map (idealLoadOf (totalEffectiveCapacity ?rest) ?load) ?rest) \<le> ?load"
      using wo sub by blast
    have len: "length (fst ?r) = length ?rest"
      using addSystemLoad_frame [of "currentAlgorithm lb" ?load ?rest]
      by (metis length_map)
    from addSystemLoad_conserves [OF l' load small rr' wo']
    have "getTotalLoad (fst ?r) - getTotalLoad ?rest + undistributed ?load (snd ?r) = ?load"
      by (simp add: perServerDelta_sum len)
    with er show ?thesis unfolding rm by simp
  qed
qed

text \<open>
  Claim C6 fails on the code. Under Round Robin, server 3 carries the whole load of 2 and
  is removed; server 1 is online and empty, server 2 is offline. Server 1 receives 1 and
  the total load falls from 2 to 1.
\<close>

theorem removeServer_loses_load:
  "getTotalLoad (servers
      \<lparr>servers = [srv 1 100 0 True, srv 2 100 0 False, srv 3 100 2 True],
       currentAlgorithm = ROUND_ROBIN, nextServerId = 4, randomLoadAmount = 10\<rparr>) = 2 \<and>
   removeServer 3
      \<lparr>servers = [srv 1 100 0 True, srv 2 100 0 False, srv 3 100 2 True],
       currentAlgorithm = ROUND_ROBIN, nextServerId = 4, randomLoadAmount = 10\<rparr> =
     (\<lparr>servers = [srv 1 100 1 True, srv 2 100 0 False],
       currentAlgorithm = ROUND_ROBIN, nextServerId = 4, randomLoadAmount = 10\<rparr>, True, []) \<and>
   getTotalLoad (servers (fst (removeServer 3
      \<lparr>servers = [srv 1 100 0 True, srv 2 100 0 False, srv 3 100 2 True],
       currentAlgorithm = ROUND_ROBIN, nextServerId = 4, randomLoadAmount = 10\<rparr>))) = 1"
proof -
  have e: "removeServer 3
      \<lparr>servers = [srv 1 100 0 True, srv 2 100 0 False, srv 3 100 2 True],
       currentAlgorithm = ROUND_ROBIN, nextServerId = 4, randomLoadAmount = 10\<rparr> =
     (\<lparr>servers = [srv 1 100 1 True, srv 2 100 0 False],
       currentAlgorithm = ROUND_ROBIN, nextServerId = 4, randomLoadAmount = 10\<rparr>, True, [])"
    by (simp add: removeServer_def addSystemLoad_def roundRobin_eval)
  show ?thesis by (simp add: e)
qed


section \<open>The registry stays well formed\<close>

text \<open>
  The conditions on the registry that the results above ask for (increasing ids, loads
  that are not negative) hold for the balancer the constructor builds and are kept by
  adding a server, by every distribution call, by a rebalance and by the removal of a
  server.
\<close>

lemma setCurrentLoad_nonneg: "0 \<le> currentLoad (setCurrentLoad x s)"
  by (simp add: setCurrentLoad_def)

lemma update_nonneg:
  assumes "\<forall>s \<in> set srvs. 0 \<le> currentLoad s"
  shows "\<forall>s \<in> set (srvs[i := setCurrentLoad x (srvs ! i)]). 0 \<le> currentLoad s"
proof
  fix s assume "s \<in> set (srvs[i := setCurrentLoad x (srvs ! i)])"
  then have "s \<in> insert (setCurrentLoad x (srvs ! i)) (set srvs)"
    using set_update_subset_insert by fastforce
  with assms show "0 \<le> currentLoad s" by (auto simp: setCurrentLoad_nonneg)
qed

lemma roundRobin_fold_nonneg:
  "\<forall>s \<in> set (fst st). 0 \<le> currentLoad s \<Longrightarrow>
     \<forall>s \<in> set (fst (fold (roundRobinVisit startIdx base) js st)). 0 \<le> currentLoad s"
proof (induction js arbitrary: st)
  case Nil
  then show ?case by simp
next
  case (Cons i js)
  have "\<forall>s \<in> set (fst (roundRobinVisit startIdx base i st)). 0 \<le> currentLoad s"
    using Cons.prems update_nonneg [of "fst st"]
    by (simp add: roundRobinVisit_def Let_def)
  from Cons.IH [OF this] show ?case by simp
qed

lemma leastLoadedLoop_nonneg:
  "\<forall>s \<in> set srvs. 0 \<le> currentLoad s \<Longrightarrow>
     \<forall>s \<in> set (fst (leastLoadedLoop srvs r)). 0 \<le> currentLoad s"
proof (induction srvs r rule: leastLoadedLoop.induct)
  case (1 srvs remainingLoad)
  show ?case
  proof (cases "0 < remainingLoad")
    case False
    then have "leastLoadedLoop srvs remainingLoad = (srvs, remainingLoad, [])"
      by (subst leastLoadedLoop.simps) simp
    with "1.prems" show ?thesis by simp
  next
    case pos: True
    show ?thesis
    proof (cases "leastLoadedStep srvs remainingLoad")
      case None
      with pos have "leastLoadedLoop srvs remainingLoad =
          (srvs, remainingLoad, [InsufficientCapacity remainingLoad])"
        by (subst leastLoadedLoop.simps) simp
      with "1.prems" show ?thesis by simp
    next
      case (Some st)
      have "\<forall>s \<in> set (fst st). 0 \<le> currentLoad s"
        using Some update_nonneg [OF "1.prems"]
        by (auto simp: leastLoadedStep_def Let_def split: option.splits if_splits)
      from "1.IH" [OF pos Some this]
      have "\<forall>s \<in> set (fst (leastLoadedLoop (fst st) (snd st))). 0 \<le> currentLoad s" .
      moreover have "leastLoadedLoop srvs remainingLoad = leastLoadedLoop (fst st) (snd st)"
        using pos Some by (subst leastLoadedLoop.simps) simp
      ultimately show ?thesis by simp
    qed
  qed
qed

lemma applyLoads_nonneg:
  "\<forall>s \<in> set srvs. 0 \<le> currentLoad s \<Longrightarrow> \<forall>s \<in> set (applyLoads srvs xs). 0 \<le> currentLoad s"
  by (induction srvs xs rule: applyLoads.induct) (auto simp: setCurrentLoad_nonneg)

lemma addSystemLoad_nonneg:
  assumes "\<forall>s \<in> set srvs. 0 \<le> currentLoad s"
  shows "\<forall>s \<in> set (fst (addSystemLoad algorithm L srvs)). 0 \<le> currentLoad s"
proof (cases algorithm)
  case ROUND_ROBIN
  with assms roundRobin_fold_nonneg [of "(srvs, r)" for r] show ?thesis
    by (simp add: addSystemLoad_def distributeLoadRoundRobin_def Let_def)
next
  case LEAST_LOADED
  with assms leastLoadedLoop_nonneg [OF assms] show ?thesis
    by (simp add: addSystemLoad_def distributeLoadLeastLoaded_def Let_def)
next
  case WEIGHTED_OPTIMIZATION
  with assms applyLoads_nonneg [OF assms] show ?thesis
    by (simp add: addSystemLoad_def distributeLoadWeightedOptimization_def Let_def)
qed

lemma addSystemLoad_ids:
  "map id_srv (fst (addSystemLoad algorithm L srvs)) = map id_srv srvs"
proof -
  have "map id_srv xs = map id_srv (map (setCurrentLoad 0) xs)" for xs
    by (simp add: comp_def setCurrentLoad_def)
  then show ?thesis
    by (metis addSystemLoad_frame)
qed

lemma registry_ok_new: "registry_ok new_LoadBalancer"
  by (simp add: registry_ok_def new_LoadBalancer_def addServer_def new_Server_def)

lemma registry_ok_addServer:
  assumes "registry_ok lb"
  shows "registry_ok (addServer cap lb)"
  using assms
  by (auto simp: registry_ok_def addServer_def new_Server_def sorted_wrt_append)

lemma registry_ok_distribute:
  assumes "registry_ok lb"
  shows "registry_ok (lb\<lparr>servers := fst (addSystemLoad algorithm L (servers lb))\<rparr>)"
proof -
  let ?r = "fst (addSystemLoad algorithm L (servers lb))"
  have ids: "map id_srv ?r = map id_srv (servers lb)" by (rule addSystemLoad_ids)
  have img: "id_srv ` set ?r = id_srv ` set (servers lb)"
    using ids by (metis set_map)
  have "\<forall>s \<in> set ?r. id_srv s < nextServerId lb"
  proof
    fix s assume "s \<in> set ?r"
    then have "id_srv s \<in> id_srv ` set (servers lb)" using img by blast
    then obtain s' where "s' \<in> set (servers lb)" "id_srv s = id_srv s'" by blast
    with assms show "id_srv s < nextServerId lb" by (simp add: registry_ok_def)
  qed
  moreover have "\<forall>s \<in> set ?r. 0 \<le> currentLoad s"
    using assms by (intro addSystemLoad_nonneg) (simp add: registry_ok_def)
  ultimately show ?thesis
    using assms ids by (simp add: registry_ok_def)
qed

lemma registry_ok_rebalanceLoads:
  assumes "registry_ok lb"
  shows "registry_ok (fst (rebalanceLoads lb))"
proof -
  let ?cl = "lb\<lparr>servers := map (setCurrentLoad 0) (servers lb)\<rparr>"
  have "registry_ok ?cl"
    using assms by (simp add: registry_ok_def comp_def setCurrentLoad_def)
  from registry_ok_distribute [OF this, of "currentAlgorithm lb" "getTotalLoad (servers lb)"]
  show ?thesis by (simp add: rebalanceLoads_def Let_def)
qed

lemma registry_ok_removeServer:
  assumes "registry_ok lb"
  shows "registry_ok (fst (removeServer sid lb))"
proof (cases "getServer sid (servers lb)")
  case None
  with assms show ?thesis by (simp add: removeServer_def)
next
  case (Some i)
  let ?rest = "take i (servers lb) @ drop (Suc i) (servers lb)"
  have sub: "set ?rest \<subseteq> set (servers lb)"
    using set_take_subset [of i "servers lb"] set_drop_subset [of "Suc i" "servers lb"] by auto
  have "sorted_wrt (<) (map id_srv (take i (servers lb) @ servers lb ! i # drop (Suc i) (servers lb)))"
    using assms getServer_Some [OF Some] by (simp add: registry_ok_def id_take_nth_drop [symmetric])
  then have "sorted_wrt (<) (map id_srv ?rest)"
    by (auto simp: sorted_wrt_append)
  with assms sub have ok: "registry_ok (lb\<lparr>servers := ?rest\<rparr>)"
    by (auto simp: registry_ok_def)
  from registry_ok_distribute [OF ok, of "currentAlgorithm lb" "currentLoad (servers lb ! i)"] ok Some
  show ?thesis by (simp add: removeServer_def Let_def)
qed


section \<open>The two formulations of Weighted Optimization\<close>


text \<open>
  Claim C4 fails on the code. Two servers of capacity 100 with loads 50 and 0, both
  online at full performance, and 50 new units. The single-file balancer aims at the
  common utilization \<open>(50 + 50) / 200 = 0.5\<close>: only server 2 is below its target and it
  receives all 50, the loads end at 50 and 50. The modular balancer splits the new load by
  capacity, 25 each, and the loads end at 75 and 25. Every number in the two runs is
  exact in binary floating point, so no operation of the two runs rounds.
\<close>

theorem weighted_formulations_differ: 
  "distributeLoadOptimization 50 (map as_Server_d [srv 1 100 50 True, srv 2 100 0 True]) =
     Some [\<lparr>id_d = 1, capacity_d = 100, currentLoad_d = 50\<rparr>,
           \<lparr>id_d = 2, capacity_d = 100, currentLoad_d = 50\<rparr>] \<and>
   fst (distributeLoadWeightedOptimization 50 [srv 1 100 50 True, srv 2 100 0 True]) =
     [srv 1 100 75 True, srv 2 100 25 True] \<and>
   distributeLoadOptimization 50 (map as_Server_d [srv 1 100 50 True, srv 2 100 0 True]) \<noteq>
     Some (map as_Server_d
       (fst (distributeLoadWeightedOptimization 50 [srv 1 100 50 True, srv 2 100 0 True])))"
proof -
  have a: "distributeLoadOptimization 50 (map as_Server_d [srv 1 100 50 True, srv 2 100 0 True]) =
     Some [\<lparr>id_d = 1, capacity_d = 100, currentLoad_d = 50\<rparr>,
           \<lparr>id_d = 2, capacity_d = 100, currentLoad_d = 50\<rparr>]"
    by (simp add: distributeLoadOptimization_def as_Server_d_def round_double_eval)
  have b: "fst (distributeLoadWeightedOptimization 50 [srv 1 100 50 True, srv 2 100 0 True]) =
     [srv 1 100 75 True, srv 2 100 25 True]"
    by (simp add: distributeLoadWeightedOptimization_def totalEffectiveCapacity_def idealLoadOf_def
     getEffectiveCapacity_def getAvailableCapacity_def static_cast_int_def remainderLoop.simps
     setCurrentLoad_def round_double_eval)
  show ?thesis unfolding a b by (simp add: as_Server_d_def)
qed

text \<open>
  The two formulations also part ways through the rounding alone. Two empty servers of
  capacity 20 and 26 and 23 new units: the proportional shares are 10 and 13. In the
  modular balancer the ratio \<open>26 / 46\<close> is rounded down, its product with 23 is the
  double just below 13 and the cast truncates it to 12; the remainder loop then hands
  the missing unit to server 1, and the loads end at 11 and 12. The single-file balancer
  computes the same product for its second server and adds it without a cast: the loads
  end at 10 and at the double just below 13.
\<close>

lemma weighted_rounding_example:
  "distributeLoadWeightedOptimization 23 [srv 1 20 0 True, srv 2 26 0 True] =
     ([srv 1 20 11 True, srv 2 26 12 True], 0, []) \<and>
   distributeLoadOptimization 23 (map as_Server_d [srv 1 20 0 True, srv 2 26 0 True]) =
     Some [\<lparr>id_d = 1, capacity_d = 20, currentLoad_d = 10\<rparr>,
           \<lparr>id_d = 2, capacity_d = 26,
            currentLoad_d = 7318349394477055 / 562949953421312\<rparr>]"
proof -
  have a: "distributeLoadWeightedOptimization 23 [srv 1 20 0 True, srv 2 26 0 True] =
     ([srv 1 20 11 True, srv 2 26 12 True], 0, [])"
    by (simp add: distributeLoadWeightedOptimization_def totalEffectiveCapacity_def idealLoadOf_def
     getEffectiveCapacity_def getAvailableCapacity_def static_cast_int_def remainderLoop.simps
     setCurrentLoad_def round_double_eval)
  have b: "distributeLoadOptimization 23 (map as_Server_d [srv 1 20 0 True, srv 2 26 0 True]) =
     Some [\<lparr>id_d = 1, capacity_d = 20, currentLoad_d = 10\<rparr>,
           \<lparr>id_d = 2, capacity_d = 26,
            currentLoad_d = 7318349394477055 / 562949953421312\<rparr>]"
    by (simp add: distributeLoadOptimization_def as_Server_d_def round_double_eval)
  from a b show ?thesis by (rule conjI)
qed

text \<open>
  What remains true: the two formulations agree where the proportional split is also the
  split that equalises utilization, no capping takes place and no operation rounds. The
  last is the case when the total capacity is a power of two: the ratios
  \<open>capacity / totalCapacity\<close> are then binary fractions.
\<close>

lemma getTotalCapacity_online:
  "\<forall>s \<in> set srvs. online s \<Longrightarrow> getTotalCapacity srvs = sum_list (map capacity srvs)"
  by (induction srvs) auto

lemma getTotalCapacity_pos:
  "srvs \<noteq> [] \<Longrightarrow> \<forall>s \<in> set srvs. online s \<and> 0 < capacity s \<Longrightarrow> 0 < getTotalCapacity srvs"
proof (induction srvs)
  case Nil
  then show ?case by simp
next
  case (Cons s rest)
  show ?case
  proof (cases "rest = []")
    case True
    with Cons.prems show ?thesis by simp
  next
    case False
    with Cons have "0 < getTotalCapacity rest" by simp
    with Cons.prems show ?thesis by simp
  qed
qed

lemma sum_list_member_le:
  fixes f :: "'a \<Rightarrow> int"
  shows "\<forall>x \<in> set xs. 0 \<le> f x \<Longrightarrow> x \<in> set xs \<Longrightarrow> f x \<le> sum_list (map f xs)"
proof (induction xs)
  case Nil
  then show ?case by simp
next
  case (Cons y ys)
  have "0 \<le> sum_list (map f ys)" using Cons.prems(1) by (intro sum_list_nonneg) auto
  with Cons show ?case by auto
qed

lemma totalEffectiveCapacity_fold:
  assumes "0 \<le> a"
    and "\<forall>s \<in> set srvs. online s \<and> performanceMultiplier s = 1 \<and> 0 \<le> capacity s"
    and "a + sum_list (map capacity srvs) < 2 ^ 53"
  shows "fold (\<lambda>server acc. if online server then round_double (acc + getEffectiveCapacity server)
                          else acc) srvs (real_of_int a) =
     real_of_int (a + sum_list (map capacity srvs))"
  using assms
proof (induction srvs arbitrary: a)
  case Nil
  show ?case by simp
next
  case (Cons s rest)
  have nn: "0 \<le> sum_list (map capacity rest)"
    using Cons.prems(2) by (intro sum_list_nonneg) auto
  have s: "online s" "performanceMultiplier s = 1" "0 \<le> capacity s"
    using Cons.prems(2) by simp_all
  have "\<bar>capacity s\<bar> < 2 ^ 53" using Cons.prems(1,3) nn s by simp
  from round_double_int [OF this] s
  have eff: "getEffectiveCapacity s = real_of_int (capacity s)"
    by (simp add: getEffectiveCapacity_def)
  have "\<bar>a + capacity s\<bar> < 2 ^ 53" using Cons.prems(1,3) nn s by simp
  from round_double_int [OF this]
  have r: "round_double (real_of_int a + real_of_int (capacity s)) = real_of_int (a + capacity s)"
    by simp
  have "fold (\<lambda>server acc. if online server then round_double (acc + getEffectiveCapacity server)
                          else acc) (s # rest) (real_of_int a) =
      fold (\<lambda>server acc. if online server then round_double (acc + getEffectiveCapacity server)
                          else acc) rest (real_of_int (a + capacity s))"
    using s by (simp only: fold_simps eff r if_True)
  also have "\<dots> = real_of_int (a + capacity s + sum_list (map capacity rest))"
    using Cons.prems s by (intro Cons.IH) auto
  finally show ?case by (simp add: add.assoc)
qed

lemma totalEffectiveCapacity_full:
  assumes "\<forall>s \<in> set srvs. online s \<and> performanceMultiplier s = 1 \<and> 0 \<le> capacity s"
    and "getTotalCapacity srvs < 2 ^ 53"
  shows "totalEffectiveCapacity srvs = real_of_int (getTotalCapacity srvs)"
proof -
  have c: "getTotalCapacity srvs = sum_list (map capacity srvs)"
    using assms(1) by (intro getTotalCapacity_online) auto
  from totalEffectiveCapacity_fold [of 0 srvs] assms show ?thesis
    by (simp add: totalEffectiveCapacity_def c)
qed

text \<open>The proportional share, when it is a whole number.\<close>

lemma share_sum:
  fixes C L :: int
  assumes C: "0 < C" and dv: "\<forall>s \<in> set srvs. C dvd L * capacity s"
  shows "sum_list (map (\<lambda>s. L * capacity s div C) srvs) * C = L * sum_list (map capacity srvs)"
  using dv
proof (induction srvs)
  case Nil
  show ?case by simp
next
  case (Cons s rest)
  then have "(L * capacity s div C) * C = L * capacity s" by simp
  with Cons show ?case by (simp add: algebra_simps)
qed

lemma share_fits:
  fixes C L T cap cur :: int
  assumes C: "0 < C" and cap: "0 < cap" and dv: "C dvd L * cap"
    and uniform: "cur * C = cap * T" and fits: "T + L \<le> C"
  shows "L * cap div C \<le> cap - cur"
proof -
  let ?q = "L * cap div C"
  have q: "?q * C = L * cap" using dv by simp
  have "(?q + cur) * C = cap * (L + T)"
    using q uniform by (simp add: algebra_simps)
  also have "\<dots> \<le> cap * C"
    using cap fits by (simp add: mult_left_mono)
  finally have "(?q + cur) * C \<le> cap * C" .
  with C have "?q + cur \<le> cap" by (simp add: mult_le_cancel_right)
  then show ?thesis by simp
qed

lemma share_bounds:
  fixes C L cap :: int
  assumes C: "0 < C" and L: "0 \<le> L" and cap: "0 \<le> cap" "cap \<le> C"
  shows "0 \<le> L * cap div C \<and> L * cap div C \<le> L"
proof -
  have "0 \<le> L * cap" using L cap by simp
  then have lo: "0 \<le> L * cap div C" using C by (simp add: pos_imp_zdiv_nonneg_iff)
  have "L * cap \<le> L * C" using L cap by (simp add: mult_left_mono)
  then have "L * cap div C \<le> L * C div C" by (rule zdiv_mono1) (rule C)
  with C lo show ?thesis by simp
qed

text \<open>
  With a total capacity of \<open>2\<^sup>m\<close>, at most \<open>2\<^sup>2\<^sup>6\<close>, the ratio of a server and its
  product with the request are computed without rounding.
\<close>

lemma ratio_exact:
  fixes C cap :: int
  assumes pow: "C = 2 ^ m" and m: "m \<le> 26" and cap: "0 \<le> cap" "cap \<le> C"
  shows "round_double (real_of_int cap / real_of_int C) = real_of_int cap / 2 ^ m"
proof -
  have "(2::int) ^ m \<le> 2 ^ 26" using m by (intro power_increasing) simp_all
  with cap pow have "\<bar>cap\<bar> < 2 ^ 53" by simp
  from round_double_dyadic [OF this, of m] show ?thesis by (simp add: pow)
qed

lemma share_exact:
  fixes C L cap :: int
  assumes pow: "C = 2 ^ m" and m: "m \<le> 26" and cap: "0 \<le> cap" "cap \<le> C"
    and L: "0 \<le> L" "L \<le> C" and dv: "C dvd L * cap"
  shows "round_double (real_of_int cap / 2 ^ m * real_of_int L) = real_of_int (L * cap div C)"
proof -
  let ?q = "L * cap div C"
  have C: "0 < C" using pow by simp
  have Cb: "C \<le> 2 ^ 26" unfolding pow using m by (intro power_increasing) simp_all
  have q: "?q * C = L * cap" using dv by simp
  have "real_of_int cap / 2 ^ m * real_of_int L = real_of_int (L * cap) / real_of_int C"
    by (simp add: pow)
  also have "\<dots> = real_of_int (?q * C) / real_of_int C" by (simp only: q)
  also have "\<dots> = real_of_int ?q" using C by simp
  finally have r: "real_of_int cap / 2 ^ m * real_of_int L = real_of_int ?q" .
  from share_bounds [OF C L(1) cap] L(2) Cb have "\<bar>?q\<bar> < 2 ^ 53" by simp
  from round_double_int [OF this] show ?thesis by (simp only: r)
qed

lemma idealLoadOf_share:
  fixes C L :: int
  assumes pow: "C = 2 ^ m" and m: "m \<le> 26" and L: "0 \<le> L" "L \<le> C"
    and s: "online s" "performanceMultiplier s = 1"
    and cap: "0 < capacity s" "capacity s \<le> C" and dv: "C dvd L * capacity s"
    and fit: "L * capacity s div C \<le> capacity s - currentLoad s"
  shows "idealLoadOf (real_of_int C) L s = L * capacity s div C"
proof -
  let ?q = "L * capacity s div C"
  have C: "0 < C" using pow by simp
  have Cb: "C \<le> 2 ^ 26" unfolding pow using m by (intro power_increasing) simp_all
  have "\<bar>capacity s\<bar> < 2 ^ 53" using cap Cb by simp
  from round_double_int [OF this] s
  have eff: "getEffectiveCapacity s = real_of_int (capacity s)"
    by (simp add: getEffectiveCapacity_def)
  have ratio: "round_double (real_of_int (capacity s) / real_of_int C) =
      real_of_int (capacity s) / 2 ^ m"
    using pow m cap by (intro ratio_exact) simp_all
  have share: "round_double (real_of_int (capacity s) / 2 ^ m * real_of_int L) = real_of_int ?q"
    using pow m cap L dv by (intro share_exact) simp_all
  have nonneg: "0 \<le> ?q" using share_bounds [OF C L(1), of "capacity s"] cap by simp
  have cast: "static_cast_int (real_of_int ?q) = ?q"
    using nonneg by (simp add: static_cast_int_def)
  have "idealLoadOf (real_of_int C) L s =
      (if ?q > getAvailableCapacity s then getAvailableCapacity s else ?q)"
    using s by (simp only: idealLoadOf_def Let_def eff ratio share cast) simp
  with fit s show ?thesis by (simp add: getAvailableCapacity_def)
qed

lemma applyLoads_map:
  "applyLoads srvs (map f srvs) =
     map (\<lambda>s. if f s > 0 then setCurrentLoad (currentLoad s + f s) s else s) srvs"
  by (induction srvs) auto

lemma weightedOptimization_proportional:
  assumes ne: "srvs \<noteq> []"
    and on: "\<forall>s \<in> set srvs. online s \<and> performanceMultiplier s = 1 \<and> 0 < capacity s \<and>
        0 \<le> currentLoad s"
    and L: "0 \<le> L"
    and uniform: "\<forall>s \<in> set srvs.
        currentLoad s * getTotalCapacity srvs = capacity s * getTotalLoad srvs"
    and fits: "getTotalLoad srvs + L \<le> getTotalCapacity srvs"
    and integral: "\<forall>s \<in> set srvs. getTotalCapacity srvs dvd L * capacity s"
    and pow: "getTotalCapacity srvs = 2 ^ m" and m: "m \<le> 26"
  shows "distributeLoadWeightedOptimization L srvs =
     (map (\<lambda>s. s\<lparr>currentLoad := currentLoad s + L * capacity s div getTotalCapacity srvs\<rparr>) srvs,
      0, [])"
proof -
  let ?C = "getTotalCapacity srvs"
  let ?q = "\<lambda>s. L * capacity s div ?C"
  have C: "0 < ?C" using ne on by (intro getTotalCapacity_pos) auto
  have Cb: "?C \<le> 2 ^ 26" unfolding pow using m by (intro power_increasing) simp_all
  have Csum: "?C = sum_list (map capacity srvs)"
    using on by (intro getTotalCapacity_online) auto
  have T0: "0 \<le> getTotalLoad srvs"
    unfolding getTotalLoad_sum using on by (intro sum_list_nonneg) auto
  have LC: "L \<le> ?C" using fits T0 by simp
  have capC: "\<forall>s \<in> set srvs. capacity s \<le> ?C"
  proof
    fix s assume "s \<in> set srvs"
    with on show "capacity s \<le> ?C"
      unfolding Csum by (intro sum_list_member_le) auto
  qed
  have eff: "totalEffectiveCapacity srvs = real_of_int ?C"
    using on Cb by (intro totalEffectiveCapacity_full) auto
  have ideal: "map (idealLoadOf (real_of_int ?C) L) srvs = map ?q srvs"
  proof (rule map_cong [OF refl])
    fix s assume s: "s \<in> set srvs"
    have "?q s \<le> capacity s - currentLoad s"
      using C on uniform fits integral s by (intro share_fits [where T = "getTotalLoad srvs"]) auto
    then show "idealLoadOf (real_of_int ?C) L s = ?q s"
      using pow m L LC on capC integral s by (intro idealLoadOf_share) auto
  qed
  have "sum_list (map ?q srvs) * ?C = L * sum_list (map capacity srvs)"
    using C integral by (rule share_sum)
  also have "sum_list (map capacity srvs) = ?C" by (simp only: Csum)
  finally have total: "sum_list (map ?q srvs) = L" using C by simp
  have loop: "remainderLoop srvs (map ?q srvs) 0 = (map ?q srvs, 0)"
    by (subst remainderLoop.simps) simp
  have q_nonneg: "\<And>s. 0 \<le> ?q s \<or> \<not> 0 < capacity s"
    using L C by (auto simp: pos_imp_zdiv_nonneg_iff)
  have applied: "applyLoads srvs (map ?q srvs) =
      map (\<lambda>s. s\<lparr>currentLoad := currentLoad s + ?q s\<rparr>) srvs"
    unfolding applyLoads_map
  proof (rule map_cong [OF refl])
    fix s assume s: "s \<in> set srvs"
    with on q_nonneg [of s] have "0 \<le> ?q s" "0 \<le> currentLoad s" by auto
    then show "(if 0 < ?q s then setCurrentLoad (currentLoad s + ?q s) s else s) =
        s\<lparr>currentLoad := currentLoad s + ?q s\<rparr>"
      by (cases "?q s = 0") (auto simp: setCurrentLoad_def)
  qed
  show ?thesis
    using ne C
    by (simp add: distributeLoadWeightedOptimization_def eff ideal total loop applied Let_def)
qed

lemma map2_map_both: "map2 f (map g xs) (map h xs) = map (\<lambda>x. f (g x) (h x)) xs"
  by (induction xs) auto

lemma optimization_proportional:
  assumes ne: "srvs \<noteq> []"
    and on: "\<forall>s \<in> set srvs. online s \<and> performanceMultiplier s = 1 \<and> 0 < capacity s \<and>
        0 \<le> currentLoad s"
    and L: "0 \<le> L"
    and uniform: "\<forall>s \<in> set srvs.
        currentLoad s * getTotalCapacity srvs = capacity s * getTotalLoad srvs"
    and fits: "getTotalLoad srvs + L \<le> getTotalCapacity srvs"
    and integral: "\<forall>s \<in> set srvs. getTotalCapacity srvs dvd L * capacity s"
    and pow: "getTotalCapacity srvs = 2 ^ m" and m: "m \<le> 26"
  shows "distributeLoadOptimization (real_of_int L) (map as_Server_d srvs) =
     Some (map (\<lambda>s. as_Server_d
        (s\<lparr>currentLoad := currentLoad s + L * capacity s div getTotalCapacity srvs\<rparr>)) srvs)"
proof -
  let ?C = "getTotalCapacity srvs"
  let ?T = "getTotalLoad srvs"
  let ?q = "\<lambda>s. L * capacity s div ?C"
  let ?ds = "map as_Server_d srvs"
  have C: "0 < ?C" using ne on by (intro getTotalCapacity_pos) auto
  have Cb: "?C \<le> 2 ^ 26" unfolding pow using m by (intro power_increasing) simp_all
  have Csum: "?C = sum_list (map capacity srvs)"
    using on by (intro getTotalCapacity_online) auto
  have T0: "0 \<le> ?T"
    unfolding getTotalLoad_sum using on by (intro sum_list_nonneg) auto
  have LC: "L \<le> ?C" using fits T0 by simp
  have capC: "\<forall>s \<in> set srvs. capacity s \<le> ?C"
  proof
    fix s assume "s \<in> set srvs"
    with on show "capacity s \<le> ?C"
      unfolding Csum by (intro sum_list_member_le) auto
  qed
  have loadT: "\<forall>s \<in> set srvs. currentLoad s \<le> ?T"
  proof
    fix s assume "s \<in> set srvs"
    with on show "currentLoad s \<le> ?T"
      unfolding getTotalLoad_sum by (intro sum_list_member_le) auto
  qed
  have qb: "\<forall>s \<in> set srvs. 0 \<le> ?q s \<and> ?q s \<le> L"
  proof
    fix s assume "s \<in> set srvs"
    with on capC show "0 \<le> ?q s \<and> ?q s \<le> L"
      by (intro share_bounds [OF C L]) auto
  qed
  have "sum_list (map ?q srvs) * ?C = L * sum_list (map capacity srvs)"
    using C integral by (rule share_sum)
  also have "sum_list (map capacity srvs) = ?C" by (simp only: Csum)
  finally have total: "sum_list (map ?q srvs) = L" using C by simp

  have cap: "fold (\<lambda>server acc. round_double (acc + capacity_d server)) ?ds 0 = real_of_int ?C"
  proof -
    have "fold (\<lambda>server acc. round_double (acc + capacity_d server)) ?ds 0 =
        fold (\<lambda>x acc. round_double (acc + real_of_int x)) (map capacity srvs) (real_of_int 0)"
      by (simp add: fold_map comp_def as_Server_d_def)
    also have "\<dots> = real_of_int (0 + sum_list (map capacity srvs))"
      using on Cb Csum by (intro fold_round_sum) auto
    finally show ?thesis by (simp add: Csum)
  qed
  have load: "fold (\<lambda>server acc. round_double (acc + currentLoad_d server)) ?ds 0 =
      real_of_int ?T"
  proof -
    have "fold (\<lambda>server acc. round_double (acc + currentLoad_d server)) ?ds 0 =
        fold (\<lambda>x acc. round_double (acc + real_of_int x)) (map currentLoad srvs) (real_of_int 0)"
      by (simp add: fold_map comp_def as_Server_d_def)
    also have "\<dots> = real_of_int (0 + sum_list (map currentLoad srvs))"
      using on Cb fits L by (intro fold_round_sum) (auto simp: getTotalLoad_sum)
    finally show ?thesis by (simp add: getTotalLoad_sum)
  qed
  have "\<bar>?T + L\<bar> < 2 ^ 53" using T0 L fits Cb by simp
  from round_double_int [OF this]
  have num: "round_double (real_of_int ?T + real_of_int L) = real_of_int (?T + L)" by simp
  have tu: "round_double (real_of_int (?T + L) / real_of_int ?C) = real_of_int (?T + L) / 2 ^ m"
    using pow m T0 L fits by (intro ratio_exact) simp_all
  have target: "round_double (real_of_int (?T + L) / 2 ^ m * real_of_int (capacity s)) =
      real_of_int ((?T + L) * capacity s) / 2 ^ m" if s: "s \<in> set srvs" for s
  proof -
    have cs: "0 < capacity s" "capacity s \<le> ?C" using on capC s by auto
    have "0 \<le> (?T + L) * capacity s" using T0 L cs by (intro mult_nonneg_nonneg) simp_all
    moreover have "(?T + L) * capacity s \<le> 2 ^ 26 * 2 ^ 26"
      using T0 L fits Cb cs by (intro mult_mono) simp_all
    ultimately have "\<bar>(?T + L) * capacity s\<bar> < 2 ^ 53" by simp
    from round_double_dyadic [OF this, of m] show ?thesis by simp
  qed
  have diff: "round_double (real_of_int ((?T + L) * capacity s) / 2 ^ m
        - real_of_int (currentLoad s)) = real_of_int (?q s)" if s: "s \<in> set srvs" for s
  proof -
    have q: "?q s * ?C = L * capacity s" using integral s by simp
    have un: "currentLoad s * ?C = capacity s * ?T" using uniform s by simp
    have rC: "real_of_int ?C = 2 ^ m" by (simp add: pow)
    have "(real_of_int ((?T + L) * capacity s) / 2 ^ m - real_of_int (currentLoad s))
          * real_of_int ?C
        = real_of_int (capacity s * ?T + L * capacity s) - real_of_int (currentLoad s * ?C)"
      by (simp add: rC field_simps)
    also have "\<dots> = real_of_int (?q s * ?C)" by (simp only: q un)
    finally have "(real_of_int ((?T + L) * capacity s) / 2 ^ m - real_of_int (currentLoad s))
          * real_of_int ?C = real_of_int (?q s) * real_of_int ?C" by simp
    with C have e: "real_of_int ((?T + L) * capacity s) / 2 ^ m - real_of_int (currentLoad s)
        = real_of_int (?q s)"
      by simp
    have "\<bar>?q s\<bar> < 2 ^ 53" using qb s LC Cb by auto
    from round_double_int [OF this] show ?thesis by (simp only: e)
  qed
  have diffs: "map2 (\<lambda>t server. round_double (t - currentLoad_d server))
        (map (\<lambda>server. round_double (real_of_int (?T + L) / 2 ^ m * capacity_d server)) ?ds) ?ds =
      map (\<lambda>s. real_of_int (?q s)) srvs"
  proof -
    have "map2 (\<lambda>t server. round_double (t - currentLoad_d server))
        (map (\<lambda>server. round_double (real_of_int (?T + L) / 2 ^ m * capacity_d server)) ?ds) ?ds =
      map (\<lambda>s. round_double
          (round_double (real_of_int (?T + L) / 2 ^ m * real_of_int (capacity s))
             - real_of_int (currentLoad s))) srvs"
      by (simp add: map2_map_both comp_def as_Server_d_def)
    also have "\<dots> = map (\<lambda>s. real_of_int (?q s)) srvs"
      by (rule map_cong [OF refl]) (simp only: target diff)
    finally show ?thesis .
  qed
  have tp: "fold (\<lambda>diff acc. if diff > 0 then round_double (acc + diff) else acc)
        (map (\<lambda>s. real_of_int (?q s)) srvs) 0 = real_of_int L"
  proof -
    have "fold (\<lambda>diff acc. if diff > 0 then round_double (acc + diff) else acc)
        (map (\<lambda>s. real_of_int (?q s)) srvs) 0 =
      fold (\<lambda>d acc. if 0 < d then round_double (acc + d) else acc)
        (map real_of_int (map ?q srvs)) (real_of_int 0)"
      by (simp add: comp_def)
    also have "\<dots> = real_of_int (0 + sum_list (map ?q srvs))"
      using qb total LC Cb by (intro fold_round_sum_positive) auto
    finally show ?thesis by (simp add: total)
  qed
  have ne': "?ds \<noteq> []" using ne by simp
  have Cne: "real_of_int ?C \<noteq> 0" using C by simp
  have head: "distributeLoadOptimization (real_of_int L) ?ds =
      (if real_of_int L > 0
       then Some (map2 (\<lambda>diff server. if diff > 0
                   then server\<lparr>currentLoad_d :=
                          round_double (currentLoad_d server +
                            round_double (real_of_int L *
                              round_double (diff / real_of_int L)))\<rparr>
                   else server) (map (\<lambda>s. real_of_int (?q s)) srvs) ?ds)
       else Some (distributeLoadLeastLoaded_d (real_of_int L) ?ds))"
    by (simp only: distributeLoadOptimization_def Let_def cap load num tu diffs tp ne' Cne
        if_False)
  show ?thesis
  proof (cases "L = 0")
    case True
    define idx where "idx = fst (findLeastLoaded ?ds 0 (0, None))"
    have same: "?ds[idx := (?ds ! idx)\<lparr>currentLoad_d :=
        round_double (currentLoad_d (?ds ! idx) + 0)\<rparr>] = ?ds"
    proof (cases "idx < length srvs")
      case False
      then show ?thesis by (simp add: list_update_beyond)
    next
      case in_range: True
      then have s: "srvs ! idx \<in> set srvs" by simp
      have "0 \<le> currentLoad (srvs ! idx)" "currentLoad (srvs ! idx) \<le> ?T"
        using on loadT s by auto
      then have "\<bar>currentLoad (srvs ! idx)\<bar> < 2 ^ 53"
        using fits L Cb by simp
      from round_double_int [OF this]
      have "(?ds ! idx)\<lparr>currentLoad_d := round_double (currentLoad_d (?ds ! idx) + 0)\<rparr> =
          ?ds ! idx"
        using in_range by (simp add: as_Server_d_def)
      then show ?thesis by (simp only: list_update_id)
    qed
    have "distributeLoadLeastLoaded_d 0 ?ds = ?ds"
      using ne' same by (simp add: distributeLoadLeastLoaded_d_def Let_def idx_def)
    with head True show ?thesis by simp
  next
    case False
    with L have Lpos: "0 < L" by simp
    have fin: "map2 (\<lambda>diff server. if diff > 0
                   then server\<lparr>currentLoad_d :=
                          round_double (currentLoad_d server +
                            round_double (real_of_int L *
                              round_double (diff / real_of_int L)))\<rparr>
                   else server) (map (\<lambda>s. real_of_int (?q s)) srvs) ?ds =
          map (\<lambda>s. as_Server_d (s\<lparr>currentLoad := currentLoad s + ?q s\<rparr>)) srvs"
      unfolding map2_map_both
    proof (rule map_cong [OF refl])
      fix s assume s: "s \<in> set srvs"
      have q: "?q s * ?C = L * capacity s" using integral s by simp
      have "0 < L * capacity s" using Lpos on s by simp
      with q have "0 < ?q s * ?C" by simp
      with C have qpos: "0 < ?q s" by (simp add: zero_less_mult_iff)
      have rC: "real_of_int ?C = 2 ^ m" by (simp add: pow)
      have "real_of_int (?q s) * real_of_int ?C = real_of_int L * real_of_int (capacity s)"
        using q by (metis of_int_mult)
      then have quot: "real_of_int (?q s) / real_of_int L = real_of_int (capacity s) / 2 ^ m"
        using Lpos C unfolding rC by (simp add: field_simps)
      have cs: "0 \<le> capacity s" "capacity s \<le> ?C" using on capC s by auto
      have dv: "?C dvd L * capacity s" using integral s by simp
      have r1: "round_double (real_of_int (?q s) / real_of_int L) =
          real_of_int (capacity s) / 2 ^ m"
        using ratio_exact [OF pow m cs] by (simp only: quot rC)
      have "real_of_int L * (real_of_int (capacity s) / 2 ^ m) =
          real_of_int (capacity s) / 2 ^ m * real_of_int L"
        by (rule mult.commute)
      then have r2: "round_double (real_of_int L * (real_of_int (capacity s) / 2 ^ m)) =
          real_of_int (?q s)"
        using share_exact [OF pow m cs L LC dv] by (simp only:)
      have b: "0 \<le> currentLoad s" "currentLoad s \<le> ?T" "0 \<le> ?q s" "?q s \<le> L"
        using on loadT qb s by auto
      have "\<bar>currentLoad s + ?q s\<bar> < 2 ^ 53"
        using b fits L Cb by simp
      from round_double_int [OF this]
      have r3: "round_double (real_of_int (currentLoad s) + real_of_int (?q s)) =
          real_of_int (currentLoad s + ?q s)" by simp
      have cl: "currentLoad_d (as_Server_d s) = real_of_int (currentLoad s)"
        by (simp add: as_Server_d_def)
      have inner: "round_double (currentLoad_d (as_Server_d s) +
            round_double (real_of_int L *
              round_double (real_of_int (?q s) / real_of_int L))) =
          real_of_int (currentLoad s + ?q s)"
        by (simp only: cl r1 r2 r3)
      have "0 < real_of_int (?q s)" using qpos by simp
      then show "(if 0 < real_of_int (?q s)
          then (as_Server_d s)\<lparr>currentLoad_d :=
                 round_double (currentLoad_d (as_Server_d s) +
                   round_double (real_of_int L *
                     round_double (real_of_int (?q s) / real_of_int L)))\<rparr>
          else as_Server_d s) = as_Server_d (s\<lparr>currentLoad := currentLoad s + ?q s\<rparr>)"
        by (simp only: inner if_True) (simp add: as_Server_d_def)
    qed
    from head Lpos fin show ?thesis by simp
  qed
qed

text \<open>
  Claim C4, as amended. Let every server be online at full performance with a positive
  capacity and a load that is not negative, let all servers have the same utilization
  (\<open>currentLoad \<times> totalCapacity = capacity \<times> totalLoad\<close> for each of them; all loads
  zero is the case of a rebalance), let the request be at least 0 and fit
  (\<open>totalLoad + loadAmount \<le> totalCapacity\<close>), let every proportional share
  \<open>loadAmount \<times> capacity / totalCapacity\<close> be a whole number, and let the total
  capacity be a power of two, at most \<open>2\<^sup>2\<^sup>6\<close>. Then both formulations add exactly
  that share to every server, and the modular one reports nothing undistributed. Every
  \<^verbatim>\<open>double\<close> operation of the two runs is rounded to binary64 in the model; under
  these conditions none of them rounds.
\<close>

theorem weighted_formulations_agree_when_proportional:
  assumes ne: "srvs \<noteq> []"
    and on: "\<forall>s \<in> set srvs. online s \<and> performanceMultiplier s = 1 \<and> 0 < capacity s \<and>
        0 \<le> currentLoad s"
    and L: "0 \<le> L"
    and uniform: "\<forall>s \<in> set srvs.
        currentLoad s * getTotalCapacity srvs = capacity s * getTotalLoad srvs"
    and fits: "getTotalLoad srvs + L \<le> getTotalCapacity srvs"
    and integral: "\<forall>s \<in> set srvs. getTotalCapacity srvs dvd L * capacity s"
    and pow: "getTotalCapacity srvs = 2 ^ m" and m: "m \<le> 26"
  shows "distributeLoadOptimization (real_of_int L) (map as_Server_d srvs) =
       Some (map as_Server_d (fst (distributeLoadWeightedOptimization L srvs))) \<and>
     fst (distributeLoadWeightedOptimization L srvs) =
       map (\<lambda>s. s\<lparr>currentLoad :=
              currentLoad s + L * capacity s div getTotalCapacity srvs\<rparr>) srvs \<and>
     snd (distributeLoadWeightedOptimization L srvs) = (0, [])"
  using weightedOptimization_proportional [OF ne on L uniform fits integral pow m]
    optimization_proportional [OF ne on L uniform fits integral pow m]
  by simp

text \<open>
  The theorem on capacities 64 and 192 (256 in total) with loads 16 and 48 (utilization
  0.25 each) and a request of 64: the shares are 16 and 48.
\<close>

theorem weighted_formulations_agree_when_proportional_witness:
  "distributeLoadOptimization 64 (map as_Server_d [srv 1 64 16 True, srv 2 192 48 True]) =
     Some [\<lparr>id_d = 1, capacity_d = 64, currentLoad_d = 32\<rparr>,
           \<lparr>id_d = 2, capacity_d = 192, currentLoad_d = 96\<rparr>] \<and>
   distributeLoadWeightedOptimization 64 [srv 1 64 16 True, srv 2 192 48 True] =
     ([srv 1 64 32 True, srv 2 192 96 True], 0, [])"
proof -
  have ne: "[srv 1 64 16 True, srv 2 192 48 True] \<noteq> []" by simp
  have on: "\<forall>s \<in> set [srv 1 64 16 True, srv 2 192 48 True].
      online s \<and> performanceMultiplier s = 1 \<and> 0 < capacity s \<and> 0 \<le> currentLoad s"
    by simp
  have L: "(0::int) \<le> 64" by simp
  have uniform: "\<forall>s \<in> set [srv 1 64 16 True, srv 2 192 48 True].
      currentLoad s * getTotalCapacity [srv 1 64 16 True, srv 2 192 48 True] =
      capacity s * getTotalLoad [srv 1 64 16 True, srv 2 192 48 True]"
    by simp
  have fits: "getTotalLoad [srv 1 64 16 True, srv 2 192 48 True] + 64 \<le>
      getTotalCapacity [srv 1 64 16 True, srv 2 192 48 True]"
    by simp
  have integral: "\<forall>s \<in> set [srv 1 64 16 True, srv 2 192 48 True].
      getTotalCapacity [srv 1 64 16 True, srv 2 192 48 True] dvd 64 * capacity s"
    by simp
  have pow: "getTotalCapacity [srv 1 64 16 True, srv 2 192 48 True] = 2 ^ 8" by simp
  have m: "(8::nat) \<le> 26" by simp
  from weighted_formulations_agree_when_proportional [OF ne on L uniform fits integral pow m]
  show ?thesis
    by (simp add: as_Server_d_def prod_eq_iff)
qed

end
